theory Spec2Isabelle
  imports Main
begin

section \<open>Data model\<close>

text \<open>
  The dependency graph of the reactive core: observables and derivations refer to each
  other, so both live in a store indexed by identifiers (a \<^typ>\<open>nat\<close> stands for the
  object reference; reference equality of the source is equality of identifiers).
  JavaScript arrays of nodes are lists of identifiers.
\<close>

datatype IDerivationState = NOT_TRACKING | UP_TO_DATE | POSSIBLY_STALE | STALE

text \<open>The numeric values of the enum, used where the source compares states with \<open>>\<close>.\<close>

fun stateValue :: "IDerivationState \<Rightarrow> int" where
  "stateValue NOT_TRACKING = -1"
| "stateValue UP_TO_DATE = 0"
| "stateValue POSSIBLY_STALE = 1"
| "stateValue STALE = 2"

record observable =
  diffValue :: int
  lastAccessedBy :: nat
  lowestObserverState :: IDerivationState
  isPendingUnobservation :: bool
  observers :: "nat list"
  observersIndexes :: "string \<rightharpoonup> nat"

record derivation =
  observing :: "nat list"
  newObserving :: "nat option list option"
  dependenciesState :: IDerivationState
  runId :: nat
  unboundDepsCount :: nat
  mapid :: string

text \<open>
  \<open>globalState\<close> together with the store of all nodes. \<open>globalRunId\<close> is
  \<open>globalState.runId\<close> (renamed: the derivation has a field \<open>runId\<close> too).
\<close>

record world =
  trackingDerivation :: "nat option"
  globalRunId :: nat
  inBatch :: int
  pendingUnobservations :: "nat list"
  allowStateChanges :: bool
  strictMode :: bool
  obsHeap :: "nat \<Rightarrow> observable"
  drvHeap :: "nat \<Rightarrow> derivation"

definition updObs :: "nat \<Rightarrow> (observable \<Rightarrow> observable) \<Rightarrow> world \<Rightarrow> world" where
  "updObs ob f w = w\<lparr>obsHeap := (obsHeap w)(ob := f (obsHeap w ob))\<rparr>"

definition updDrv :: "nat \<Rightarrow> (derivation \<Rightarrow> derivation) \<Rightarrow> world \<Rightarrow> world" where
  "updDrv d f w = w\<lparr>drvHeap := (drvHeap w)(d := f (drvHeap w d))\<rparr>"


section \<open>Values, exceptions and calls to collaborators\<close>

subsection \<open>Values and change records\<close>

text \<open>
  What an observable value stores is any JavaScript value; \<open>JRef\<close> is a reference to an
  object, and equality of the model is \<open>===\<close> (numbers are integers here: no NaN).
\<close>

datatype jsvalue = Undefined | Null | JBool bool | JNum int | JStr string | JRef nat

fun truthy :: "jsvalue \<Rightarrow> bool" where
  "truthy Undefined = False"
| "truthy Null = False"
| "truthy (JBool b) = b"
| "truthy (JNum n) = (n \<noteq> 0)"
| "truthy (JStr s) = (s \<noteq> [])"
| "truthy (JRef r) = True"

text \<open>
  \<open>IValueWillChange\<close> and \<open>IValueDidChange\<close>. \<open>changeType\<close> is the \<open>type\<close> property
  (\<open>Undefined\<close> when the object has none), \<open>changeObject\<close> the observable the change is about.
\<close>

record valueWillChange =
  changeObject :: nat
  changeType :: jsvalue
  newValue :: jsvalue

record valueDidChange = valueWillChange +
  oldValue :: jsvalue

subsection \<open>Calls that leave the modelled code\<close>

text \<open>
  The hooks \<open>onBecomeStale\<close> and \<open>onBecomeUnobserved\<close> are methods of the node classes
  (computed values, reactions, atoms), and \<open>runReactions\<close> belongs to the reaction
  scheduler; they are parameters of the functions that call them, as functions on the
  world. So are the \<open>get()\<close> of a computed value, \<open>reportChanged()\<close> of the atom base
  class, the spy, and the interceptors and listeners a user registers (in the log by their
  index in the array). Every call is recorded, in order, in a log that is threaded next
  to the world and that the hooks cannot touch.
\<close>

datatype exn = TypeError | InvariantFailed string | Thrown string

datatype event =
    OnBecomeStale nat
  | OnBecomeUnobserved nat
  | RunReactions
  | ComputedGet nat
  | InterceptorCall nat
  | ReportChanged nat
  | ListenerCall nat valueDidChange
  | SpyReportStart
  | SpyReportEnd

type_synonym run = "event list \<times> world"

type_synonym nodeHook = "nat \<Rightarrow> world \<Rightarrow> world"


section \<open>Propagation\<close>

subsection \<open>propagateChangeConfirmed\<close>

text \<open>
  The loop \<open>while (i--) { const d = observers[i]; ... }\<close>: the argument is the value of
  \<open>i\<close> before the test, the body runs with \<open>i - 1\<close>. Nothing in the body changes the
  \<open>observers\<close> array, so every read is in range when the loop starts at its length.
\<close>

fun propagateChangeConfirmed_loop :: "nat \<Rightarrow> nat \<Rightarrow> world \<Rightarrow> world" where
  "propagateChangeConfirmed_loop ob 0 w = w"
| "propagateChangeConfirmed_loop ob (Suc i) w =
     (let d = observers (obsHeap w ob) ! i in
      propagateChangeConfirmed_loop ob i
        (if dependenciesState (drvHeap w d) = POSSIBLY_STALE
         then updDrv d (\<lambda>x. x\<lparr>dependenciesState := STALE\<rparr>) w
         else if dependenciesState (drvHeap w d) = UP_TO_DATE
         then updObs ob (\<lambda>x. x\<lparr>lowestObserverState := UP_TO_DATE\<rparr>) w
         else w))"

definition propagateChangeConfirmed :: "nat \<Rightarrow> world \<Rightarrow> world" where
  "propagateChangeConfirmed ob w =
     (if lowestObserverState (obsHeap w ob) = STALE then w
      else propagateChangeConfirmed_loop ob (length (observers (obsHeap w ob)))
             (updObs ob (\<lambda>x. x\<lparr>lowestObserverState := STALE\<rparr>) w))"

subsection \<open>propagateChanged\<close>

text \<open>
  \<open>observers\<close> is read through the array reference at every iteration, and a hook may
  have changed the array in place; reading \<open>observers[i]\<close> past its end gives
  \<open>undefined\<close>, and \<open>d.dependenciesState\<close> then throws a TypeError.
\<close>

fun propagateChanged_loop :: "nodeHook \<Rightarrow> nat \<Rightarrow> nat \<Rightarrow> run \<Rightarrow> exn option \<times> run" where
  "propagateChanged_loop onBecomeStale ob 0 r = (None, r)"
| "propagateChanged_loop onBecomeStale ob (Suc i) (tr, w) =
     (if i < length (observers (obsHeap w ob)) then
        (let d = observers (obsHeap w ob) ! i;
             r1 = (if dependenciesState (drvHeap w d) = UP_TO_DATE
                   then (tr @ [OnBecomeStale d], onBecomeStale d w) else (tr, w))
         in propagateChanged_loop onBecomeStale ob i
              (fst r1, updDrv d (\<lambda>x. x\<lparr>dependenciesState := STALE\<rparr>) (snd r1)))
      else (Some TypeError, (tr, w)))"

definition propagateChanged :: "nodeHook \<Rightarrow> nat \<Rightarrow> run \<Rightarrow> exn option \<times> run" where
  "propagateChanged onBecomeStale ob r =
     (if lowestObserverState (obsHeap (snd r) ob) = STALE then (None, r)
      else propagateChanged_loop onBecomeStale ob (length (observers (obsHeap (snd r) ob)))
             (fst r, updObs ob (\<lambda>x. x\<lparr>lowestObserverState := STALE\<rparr>) (snd r)))"

text \<open>
  The specification's wording of the same walk, over the list of observers in visiting order:
  an observer that is \<open>UP_TO_DATE\<close> when visited gets \<open>onBecomeStale()\<close>, and every
  visited observer is set to \<open>STALE\<close>.
\<close>

fun markStale_spec :: "nodeHook \<Rightarrow> nat list \<Rightarrow> run \<Rightarrow> run" where
  "markStale_spec onBecomeStale [] r = r"
| "markStale_spec onBecomeStale (d # ds) (tr, w) =
     markStale_spec onBecomeStale ds
       (if dependenciesState (drvHeap w d) = UP_TO_DATE
        then (tr @ [OnBecomeStale d],
              updDrv d (\<lambda>x. x\<lparr>dependenciesState := STALE\<rparr>) (onBecomeStale d w))
        else (tr, updDrv d (\<lambda>x. x\<lparr>dependenciesState := STALE\<rparr>) w))"

subsection \<open>propagateMaybeChanged\<close>

fun propagateMaybeChanged_loop :: "nodeHook \<Rightarrow> nat \<Rightarrow> nat \<Rightarrow> run \<Rightarrow> exn option \<times> run" where
  "propagateMaybeChanged_loop onBecomeStale ob 0 r = (None, r)"
| "propagateMaybeChanged_loop onBecomeStale ob (Suc i) (tr, w) =
     (if i < length (observers (obsHeap w ob)) then
        (let d = observers (obsHeap w ob) ! i in
         propagateMaybeChanged_loop onBecomeStale ob i
           (if dependenciesState (drvHeap w d) = UP_TO_DATE
            then (tr @ [OnBecomeStale d],
                  onBecomeStale d (updDrv d (\<lambda>x. x\<lparr>dependenciesState := POSSIBLY_STALE\<rparr>) w))
            else (tr, w)))
      else (Some TypeError, (tr, w)))"

definition propagateMaybeChanged :: "nodeHook \<Rightarrow> nat \<Rightarrow> run \<Rightarrow> exn option \<times> run" where
  "propagateMaybeChanged onBecomeStale ob r =
     (if lowestObserverState (obsHeap (snd r) ob) \<noteq> UP_TO_DATE then (None, r)
      else propagateMaybeChanged_loop onBecomeStale ob (length (observers (obsHeap (snd r) ob)))
             (fst r, updObs ob (\<lambda>x. x\<lparr>lowestObserverState := POSSIBLY_STALE\<rparr>) (snd r)))"

section \<open>Observer lists and the batch controller\<close>

subsection \<open>queueForUnobservation, addObserver, removeObserver\<close>

definition queueForUnobservation :: "nat \<Rightarrow> world \<Rightarrow> world" where
  "queueForUnobservation ob w =
     (if \<not> isPendingUnobservation (obsHeap w ob)
      then (updObs ob (\<lambda>x. x\<lparr>isPendingUnobservation := True\<rparr>) w)
             \<lparr>pendingUnobservations := pendingUnobservations w @ [ob]\<rparr>
      else w)"

definition addObserver :: "nat \<Rightarrow> nat \<Rightarrow> world \<Rightarrow> world" where
  "addObserver ob node w =
     (let l = length (observers (obsHeap w ob));
          w1 = (if l \<noteq> 0
                then updObs ob (\<lambda>x. x\<lparr>observersIndexes :=
                       (observersIndexes x)(mapid (drvHeap w node) \<mapsto> l)\<rparr>) w
                else w);
          w2 = updObs ob (\<lambda>x. x\<lparr>observers := observers x @ [node]\<rparr>) w1
      in if stateValue (lowestObserverState (obsHeap w2 ob))
              > stateValue (dependenciesState (drvHeap w2 node))
         then updObs ob (\<lambda>x. x\<lparr>lowestObserverState := dependenciesState (drvHeap w2 node)\<rparr>) w2
         else w2)"

text \<open>
  \<open>removeObserver\<close>. With an empty \<open>observers\<close> array, \<open>list.pop()\<close> is \<open>undefined\<close>, which
  differs from \<open>node\<close>, and \<open>filler.__mapid\<close> throws a TypeError before anything is
  written. \<open>list[index] = filler\<close> with an index beyond the end of the array would leave
  holes in it; lists have no holes, so the model stops there with \<open>SparseArray\<close> (the source
  goes on). The index is the one \<open>addObserver\<close> stored, which is inside the array.
\<close>

datatype fault = Exn exn | SparseArray

definition removeObserver :: "nat \<Rightarrow> nat \<Rightarrow> world \<Rightarrow> fault option \<times> world" where
  "removeObserver ob node w =
     (if length (observers (obsHeap w ob)) = 1
      then (None, queueForUnobservation ob (updObs ob (\<lambda>x. x\<lparr>observers := []\<rparr>) w))
      else
        (case rev (observers (obsHeap w ob)) of
           [] \<Rightarrow> (Some (Exn TypeError), w)
         | filler # rest \<Rightarrow>
             (let w1 = updObs ob (\<lambda>x. x\<lparr>observers := rev rest\<rparr>) w;
                  nodeId = mapid (drvHeap w1 node);
                  fillerId = mapid (drvHeap w1 filler)
              in if filler \<noteq> node then
                   (let index = (case observersIndexes (obsHeap w1 ob) nodeId of
                                   None \<Rightarrow> 0 | Some k \<Rightarrow> k);
                        w2 = (if index \<noteq> 0
                              then updObs ob (\<lambda>x. x\<lparr>observersIndexes :=
                                     (observersIndexes x)(fillerId \<mapsto> index)\<rparr>) w1
                              else updObs ob (\<lambda>x. x\<lparr>observersIndexes :=
                                     (observersIndexes x)(fillerId := None)\<rparr>) w1)
                    in if index < length rest then
                         (None, updObs ob (\<lambda>x. x\<lparr>observersIndexes :=
                                     (observersIndexes x)(nodeId := None)\<rparr>)
                                  (updObs ob (\<lambda>x. x\<lparr>observers := (observers x)[index := filler]\<rparr>) w2))
                       else if index = length rest then
                         (None, updObs ob (\<lambda>x. x\<lparr>observersIndexes :=
                                     (observersIndexes x)(nodeId := None)\<rparr>)
                                  (updObs ob (\<lambda>x. x\<lparr>observers := observers x @ [filler]\<rparr>) w2))
                       else (Some SparseArray, w2))
                 else (None, updObs ob (\<lambda>x. x\<lparr>observersIndexes :=
                                     (observersIndexes x)(nodeId := None)\<rparr>) w1))))"

subsection \<open>reportObserved\<close>

text \<open>
  \<open>newObserving\<close> is a JavaScript array with empty slots (\<open>new Array(n)\<close>): a list of
  optional identifiers, \<open>None\<close> for an empty slot. A write at an index past the end
  extends the array, the slots in between staying empty.
\<close>

definition arrayStore :: "'a option list \<Rightarrow> nat \<Rightarrow> 'a \<Rightarrow> 'a option list" where
  "arrayStore xs i v =
     (if i < length xs then xs[i := Some v]
      else xs @ replicate (i - length xs) None @ [Some v])"

definition arrayLoad :: "'a option list \<Rightarrow> nat \<Rightarrow> 'a option" where
  "arrayLoad xs i = (if i < length xs then xs ! i else None)"

text \<open>
  With \<open>newObserving\<close> null (no run of the derivation in progress) the write throws a
  TypeError, after \<open>lastAccessedBy\<close> has been set and \<open>unboundDepsCount++\<close> evaluated.
\<close>

definition reportObserved :: "nat \<Rightarrow> world \<Rightarrow> exn option \<times> world" where
  "reportObserved ob w =
     (case trackingDerivation w of
        Some d \<Rightarrow>
          (if runId (drvHeap w d) \<noteq> lastAccessedBy (obsHeap w ob) then
             (let w1 = updObs ob (\<lambda>x. x\<lparr>lastAccessedBy := runId (drvHeap w d)\<rparr>) w in
              case newObserving (drvHeap w1 d) of
                None \<Rightarrow> (Some TypeError,
                         updDrv d (\<lambda>x. x\<lparr>unboundDepsCount := unboundDepsCount x + 1\<rparr>) w1)
              | Some slots \<Rightarrow>
                  (None, updDrv d (\<lambda>x. x\<lparr>newObserving := Some (arrayStore slots (unboundDepsCount x) ob),
                                          unboundDepsCount := unboundDepsCount x + 1\<rparr>) w1))
           else (None, w))
      | None \<Rightarrow>
          (if length (observers (obsHeap w ob)) = 0 then (None, queueForUnobservation ob w)
           else (None, w)))"

subsection \<open>startBatch, endBatch\<close>

definition startBatch :: "world \<Rightarrow> world" where
  "startBatch w = w\<lparr>inBatch := inBatch w + 1\<rparr>"

text \<open>
  The drain loop of \<open>endBatch\<close>: \<open>for (let i = 0; i < list.length; i++)\<close>, where \<open>list\<close> is
  the array in \<open>globalState.pendingUnobservations\<close>. A hook that enqueues pushes onto that
  same array, so the bound is read again at every iteration, and the loop need not end.
\<close>

partial_function (option) endBatch_loop :: "nodeHook \<Rightarrow> nat \<Rightarrow> run \<Rightarrow> run option" where
  "endBatch_loop onBecomeUnobserved i r =
     (if i < length (pendingUnobservations (snd r)) then
        (let ob = pendingUnobservations (snd r) ! i;
             w1 = updObs ob (\<lambda>x. x\<lparr>isPendingUnobservation := False\<rparr>) (snd r)
         in endBatch_loop onBecomeUnobserved (i + 1)
              (if length (observers (obsHeap w1 ob)) = 0
               then (fst r @ [OnBecomeUnobserved ob], onBecomeUnobserved ob w1)
               else (fst r, w1)))
      else Some r)"

definition endBatch :: "(world \<Rightarrow> world) \<Rightarrow> nodeHook \<Rightarrow> run \<Rightarrow> run option" where
  "endBatch runReactions onBecomeUnobserved r =
     (let w1 = (snd r)\<lparr>inBatch := inBatch (snd r) - 1\<rparr> in
      if inBatch w1 = 0 then
        (case endBatch_loop onBecomeUnobserved 0 (fst r @ [RunReactions], runReactions w1) of
           None \<Rightarrow> None
         | Some r2 \<Rightarrow> Some (fst r2, (snd r2)\<lparr>pendingUnobservations := []\<rparr>))
      else Some (fst r, w1))"

text \<open>
  The specification's wording of the drain, over the queued observables in order: the flag is
  cleared, and an observable without observers gets \<open>onBecomeUnobserved()\<close>.
\<close>

fun drain_spec :: "nodeHook \<Rightarrow> nat list \<Rightarrow> run \<Rightarrow> run" where
  "drain_spec onBecomeUnobserved [] r = r"
| "drain_spec onBecomeUnobserved (ob # obs) (tr, w) =
     drain_spec onBecomeUnobserved obs
       (let w1 = updObs ob (\<lambda>x. x\<lparr>isPendingUnobservation := False\<rparr>) w in
        if length (observers (obsHeap w1 ob)) = 0
        then (tr @ [OnBecomeUnobserved ob], onBecomeUnobserved ob w1)
        else (tr, w1))"

section \<open>Derivations: tracking and rebinding\<close>

subsection \<open>untracked scopes, changeDependenciesStateTo0\<close>

definition untrackedStart :: "world \<Rightarrow> nat option \<times> world" where
  "untrackedStart w = (trackingDerivation w, w\<lparr>trackingDerivation := None\<rparr>)"

definition untrackedEnd :: "nat option \<Rightarrow> world \<Rightarrow> world" where
  "untrackedEnd prev w = w\<lparr>trackingDerivation := prev\<rparr>"

fun changeDependenciesStateTo0_loop :: "nat \<Rightarrow> nat \<Rightarrow> world \<Rightarrow> world" where
  "changeDependenciesStateTo0_loop d 0 w = w"
| "changeDependenciesStateTo0_loop d (Suc i) w =
     changeDependenciesStateTo0_loop d i
       (updObs (observing (drvHeap w d) ! i) (\<lambda>x. x\<lparr>lowestObserverState := UP_TO_DATE\<rparr>) w)"

definition changeDependenciesStateTo0 :: "nat \<Rightarrow> world \<Rightarrow> world" where
  "changeDependenciesStateTo0 d w =
     (if dependenciesState (drvHeap w d) = UP_TO_DATE then w
      else changeDependenciesStateTo0_loop d (length (observing (drvHeap w d)))
             (updDrv d (\<lambda>x. x\<lparr>dependenciesState := UP_TO_DATE\<rparr>) w))"

subsection \<open>bindDependencies\<close>

text \<open>
  \<open>observing.length = i0\<close>: a shorter length truncates, a longer one adds empty slots.
  \<open>filled\<close> reads an array without empty slots as the list of its entries.
\<close>

definition arraySetLength :: "'a option list \<Rightarrow> nat \<Rightarrow> 'a option list" where
  "arraySetLength xs n = take n xs @ replicate (n - length xs) None"

fun filled :: "'a option list \<Rightarrow> 'a list" where
  "filled [] = []"
| "filled (None # xs) = filled xs"
| "filled (Some x # xs) = x # filled xs"

text \<open>
  First pass, \<open>for (let i = 0; i < l; i++)\<close> over the new array: an entry whose
  \<open>diffValue\<close> is 0 is kept, marked 1 and moved down to the write cursor \<open>i0\<close>; any other
  entry is dropped. Reading an empty slot gives \<open>undefined\<close>, and \<open>dep.diffValue\<close> throws.
\<close>

function bindDependencies_dedup ::
  "nat \<Rightarrow> nat \<Rightarrow> nat \<Rightarrow> nat option list \<Rightarrow> world \<Rightarrow> fault option \<times> nat \<times> nat option list \<times> world" where
  "bindDependencies_dedup i l i0 arr w =
     (if i < l then
        (case arrayLoad arr i of
           None \<Rightarrow> (Some (Exn TypeError), i0, arr, w)
         | Some dep \<Rightarrow>
             if diffValue (obsHeap w dep) = 0
             then bindDependencies_dedup (i + 1) l (i0 + 1)
                    (if i0 \<noteq> i then arrayStore arr i0 dep else arr)
                    (updObs dep (\<lambda>x. x\<lparr>diffValue := 1\<rparr>) w)
             else bindDependencies_dedup (i + 1) l i0 arr w)
      else (None, i0, arr, w))"
  by pat_completeness auto
termination
  by (relation "measure (\<lambda>(i, l, i0, arr, w). l - i)") auto

text \<open>
  Second pass, \<open>while (l--)\<close> over the previous array (no longer referenced by the
  derivation, so nothing changes it): an observable that is not in the new array
  (\<open>diffValue\<close> 0) loses the derivation as observer; \<open>diffValue\<close> is reset.
\<close>

fun bindDependencies_unobserve :: "nat \<Rightarrow> nat list \<Rightarrow> nat \<Rightarrow> world \<Rightarrow> fault option \<times> world" where
  "bindDependencies_unobserve d prevObserving 0 w = (None, w)"
| "bindDependencies_unobserve d prevObserving (Suc l) w =
     (let dep = prevObserving ! l;
          r = (if diffValue (obsHeap w dep) = 0 then removeObserver dep d w else (None, w))
      in case fst r of
           Some e \<Rightarrow> (Some e, snd r)
         | None \<Rightarrow> bindDependencies_unobserve d prevObserving l
                     (updObs dep (\<lambda>x. x\<lparr>diffValue := 0\<rparr>) (snd r)))"

text \<open>
  Third pass, \<open>while (i0--)\<close> over the compacted new array: an observable still marked 1
  was not observed before and gets the derivation as observer.
\<close>

fun bindDependencies_observe :: "nat \<Rightarrow> nat option list \<Rightarrow> nat \<Rightarrow> world \<Rightarrow> fault option \<times> world" where
  "bindDependencies_observe d arr 0 w = (None, w)"
| "bindDependencies_observe d arr (Suc i0) w =
     (case arrayLoad arr i0 of
        None \<Rightarrow> (Some (Exn TypeError), w)
      | Some dep \<Rightarrow>
          bindDependencies_observe d arr i0
            (if diffValue (obsHeap w dep) = 1
             then addObserver dep d (updObs dep (\<lambda>x. x\<lparr>diffValue := 0\<rparr>) w)
             else w))"

text \<open>
  \<open>derivation.observing\<close> is assigned the new array at the start and the array is then
  compacted in place; the passes reach it through the local \<open>observing\<close> only, so the
  model writes the field once the first pass and the truncation are done. With
  \<open>newObserving\<close> null the function throws on \<open>observing.length = i0\<close> at the latest,
  leaving \<open>derivation.observing\<close> null, a value the field of the model does not have: the
  model keeps the previous list there.
\<close>

definition bindDependencies :: "nat \<Rightarrow> world \<Rightarrow> fault option \<times> world" where
  "bindDependencies d w =
     (case newObserving (drvHeap w d) of
        None \<Rightarrow> (Some (Exn TypeError), updDrv d (\<lambda>x. x\<lparr>newObserving := None\<rparr>) w)
      | Some arr0 \<Rightarrow>
          (let prevObserving = observing (drvHeap w d);
               w0 = updDrv d (\<lambda>x. x\<lparr>newObserving := None\<rparr>) w;
               (e1, i0, arr1, w1) = bindDependencies_dedup 0 (unboundDepsCount (drvHeap w0 d)) 0 arr0 w0
           in case e1 of
                Some e \<Rightarrow> (Some e, updDrv d (\<lambda>x. x\<lparr>observing := filled arr1\<rparr>) w1)
              | None \<Rightarrow>
                  (let arr2 = arraySetLength arr1 i0;
                       w2 = updDrv d (\<lambda>x. x\<lparr>observing := filled arr2\<rparr>) w1;
                       r3 = bindDependencies_unobserve d prevObserving (length prevObserving) w2
                   in case fst r3 of
                        Some e \<Rightarrow> (Some e, snd r3)
                      | None \<Rightarrow> bindDependencies_observe d arr2 i0 (snd r3))))"

subsection \<open>trackDerivedFunction\<close>

text \<open>
  The tracked function \<open>f\<close> is user code. What it does to the tracking state is the
  sequence of its reads, and it ends by returning a value or by throwing:
  \<^item> \<open>Observe ob\<close>: \<open>f\<close> reads observable \<open>ob\<close>, that is \<open>reportObserved(ob)\<close> with the
    derivation of this run as \<open>trackingDerivation\<close>;
  \<^item> \<open>ObserveNested r ob\<close>: a computed value evaluated inside \<open>f\<close> reads \<open>ob\<close> in its
    own run, whose id is \<open>r\<close>: \<open>reportObserved\<close> sets \<open>ob.lastAccessedBy = r\<close> when it
    differs; the entry goes to the array of that other derivation.
\<close>

datatype act = Observe nat | ObserveNested nat nat

type_synonym 'a trackedFunction = "act list \<times> (exn + 'a)"

datatype 'a tracked = Value 'a | CaughtException exn

definition isCaughtException :: "'a tracked \<Rightarrow> bool" where
  "isCaughtException e = (case e of CaughtException _ \<Rightarrow> True | Value _ \<Rightarrow> False)"

fun runActs :: "act list \<Rightarrow> world \<Rightarrow> exn option \<times> world" where
  "runActs [] w = (None, w)"
| "runActs (Observe ob # as) w =
     (case reportObserved ob w of
        (Some e, w') \<Rightarrow> (Some e, w')
      | (None, w') \<Rightarrow> runActs as w')"
| "runActs (ObserveNested r ob # as) w =
     runActs as (if r \<noteq> lastAccessedBy (obsHeap w ob)
                 then updObs ob (\<lambda>x. x\<lparr>lastAccessedBy := r\<rparr>) w else w)"

text \<open>\<open>f.call(context)\<close> inside \<open>try\<close>/\<open>catch\<close>: whatever is thrown becomes the result.\<close>

definition callTracked :: "'a trackedFunction \<Rightarrow> world \<Rightarrow> 'a tracked \<times> world" where
  "callTracked f w =
     (case runActs (fst f) w of
        (Some e, w') \<Rightarrow> (CaughtException e, w')
      | (None, w') \<Rightarrow> (case snd f of Inl e \<Rightarrow> (CaughtException e, w') | Inr v \<Rightarrow> (Value v, w')))"

definition trackDerivedFunction ::
  "nat \<Rightarrow> 'a trackedFunction \<Rightarrow> world \<Rightarrow> (fault + 'a tracked) \<times> world" where
  "trackDerivedFunction d f w =
     (let w1 = changeDependenciesStateTo0 d w;
          w2 = updDrv d (\<lambda>x. x\<lparr>newObserving :=
                 Some (replicate (length (observing x) + 100) None)\<rparr>) w1;
          w3 = updDrv d (\<lambda>x. x\<lparr>unboundDepsCount := 0\<rparr>) w2;
          w4 = updDrv d (\<lambda>x. x\<lparr>runId := globalRunId w3 + 1\<rparr>)
                 (w3\<lparr>globalRunId := globalRunId w3 + 1\<rparr>);
          prevTracking = trackingDerivation w4;
          w5 = w4\<lparr>trackingDerivation := Some d\<rparr>;
          (result, w6) = callTracked f w5;
          w7 = w6\<lparr>trackingDerivation := prevTracking\<rparr>;
          (e, w8) = bindDependencies d w7
      in case e of Some flt \<Rightarrow> (Inl flt, w8) | None \<Rightarrow> (Inr result, w8))"

text \<open>
  The specification's wording of the result: every observable once, in the order of first reads.
\<close>

fun firstReadOrder :: "nat list \<Rightarrow> nat list" where
  "firstReadOrder [] = []"
| "firstReadOrder (x # xs) = x # removeAll x (firstReadOrder xs)"

fun reads :: "act list \<Rightarrow> nat list" where
  "reads [] = []"
| "reads (Observe ob # as) = ob # reads as"
| "reads (ObserveNested r ob # as) = reads as"

subsection \<open>Well-formed edges\<close>

text \<open>
  The part of the graph invariants that \<open>removeObserver(ob, d)\<close> relies on: \<open>ob\<close> has an
  observer, and unless \<open>d\<close> is the only or the last one, the index recorded for \<open>d\<close> in
  \<open>observersIndexes\<close> (0 when there is none) lies inside the array.
\<close>

definition removable :: "world \<Rightarrow> nat \<Rightarrow> nat \<Rightarrow> bool" where
  "removable w d ob =
     (let os = observers (obsHeap w ob) in
      os \<noteq> [] \<and>
      (length os = 1 \<or> last os = d \<or>
       (case observersIndexes (obsHeap w ob) (mapid (drvHeap w d)) of
          None \<Rightarrow> 0 | Some k \<Rightarrow> k) < length os))"

subsection \<open>shouldCompute\<close>

text \<open>
  \<open>isComputedValue\<close> and the \<open>get()\<close> of a computed value belong to the computed-value
  class and are parameters; \<open>get()\<close> may throw. The loop runs over \<open>obs\<close>, the array that
  was \<open>derivation.observing\<close> when the walk started, up to the length it had then.
\<close>

type_synonym getHook = "nat \<Rightarrow> world \<Rightarrow> exn option \<times> world"

fun shouldCompute_loop ::
  "(nat \<Rightarrow> bool) \<Rightarrow> getHook \<Rightarrow> nat \<Rightarrow> nat option \<Rightarrow> nat list \<Rightarrow> run \<Rightarrow> bool \<times> run" where
  "shouldCompute_loop isComputedValue get d prevUntracked [] (tr, w) =
     (False, (tr, untrackedEnd prevUntracked (changeDependenciesStateTo0 d w)))"
| "shouldCompute_loop isComputedValue get d prevUntracked (obj # obs) (tr, w) =
     (if isComputedValue obj then
        (case get obj w of
           (Some e, w1) \<Rightarrow> (True, (tr @ [ComputedGet obj], untrackedEnd prevUntracked w1))
         | (None, w1) \<Rightarrow>
             if dependenciesState (drvHeap w1 d) = STALE
             then (True, (tr @ [ComputedGet obj], untrackedEnd prevUntracked w1))
             else shouldCompute_loop isComputedValue get d prevUntracked obs
                    (tr @ [ComputedGet obj], w1))
      else shouldCompute_loop isComputedValue get d prevUntracked obs (tr, w))"

definition shouldCompute :: "(nat \<Rightarrow> bool) \<Rightarrow> getHook \<Rightarrow> nat \<Rightarrow> run \<Rightarrow> bool \<times> run" where
  "shouldCompute isComputedValue get d r =
     (case dependenciesState (drvHeap (snd r) d) of
        UP_TO_DATE \<Rightarrow> (False, r)
      | NOT_TRACKING \<Rightarrow> (True, r)
      | STALE \<Rightarrow> (True, r)
      | POSSIBLY_STALE \<Rightarrow>
          (let (prevUntracked, w1) = untrackedStart (snd r)
           in shouldCompute_loop isComputedValue get d prevUntracked
                (observing (drvHeap w1 d)) (fst r, w1)))"

text \<open>
  The specification's wording of the \<open>POSSIBLY_STALE\<close> case, over the computed dependencies in
  stored order: \<open>get()\<close> on each, true as soon as the derivation has become \<open>STALE\<close> (or
  \<open>get()\<close> has thrown), and \<open>changeDependenciesStateTo0\<close> and false after the last one.
\<close>

fun confirm_spec :: "getHook \<Rightarrow> nat \<Rightarrow> nat option \<Rightarrow> nat list \<Rightarrow> run \<Rightarrow> bool \<times> run" where
  "confirm_spec get d prev [] (tr, w) =
     (False, (tr, (changeDependenciesStateTo0 d w)\<lparr>trackingDerivation := prev\<rparr>))"
| "confirm_spec get d prev (c # cs) (tr, w) =
     (let r = get c w in
      if fst r \<noteq> None \<or> dependenciesState (drvHeap (snd r) d) = STALE
      then (True, (tr @ [ComputedGet c], (snd r)\<lparr>trackingDerivation := prev\<rparr>))
      else confirm_spec get d prev cs (tr @ [ComputedGet c], snd r))"

section \<open>Observable values, interceptors and listeners\<close>

text \<open>
  Modelled from the spec: \<open>invariant\<close> of \<open>utils/utils\<close> is not among the sources. By the
  spec an invariant violation is fatal, halts the current operation and is surfaced to the
  caller with a descriptive message: a failed check throws, carrying the message.
\<close>

definition invariant :: "bool \<Rightarrow> string \<Rightarrow> exn option" where
  "invariant check message = (if check then None else Some (InvariantFailed message))"

definition checkIfStateModificationsAreAllowed :: "world \<Rightarrow> exn option" where
  "checkIfStateModificationsAreAllowed w =
     (if \<not> allowStateChanges w then
        invariant False (if strictMode w
          then ''It is not allowed to create or change state outside an `action` when MobX is in strict mode. Wrap the current method in `action` if this state change is intended''
          else ''It is not allowed to change the state when a computed value or transformer is being evaluated. Use 'autorun' to create reactive functions with side-effects.'')
      else None)"

text \<open>
  An interceptor gets the change and returns a value or throws. A falsy return is \<open>None\<close>;
  a truthy one is represented by the properties the code reads from it, \<open>type\<close> and
  \<open>newValue\<close>. A listener gets the change and may throw. Both may change the world, not
  the observable value they are registered on.
\<close>

type_synonym interceptor = "valueWillChange \<Rightarrow> world \<Rightarrow> (exn + valueWillChange option) \<times> world"

type_synonym listener = "valueDidChange \<Rightarrow> world \<Rightarrow> exn option \<times> world"

record observableValue =
  atomId :: nat
  name :: string
  storedValue :: jsvalue
  interceptors :: "interceptor list option"
  changeListeners :: "listener list option"
  enhancer :: "jsvalue \<Rightarrow> jsvalue \<Rightarrow> string \<Rightarrow> exn + jsvalue"

subsection \<open>intercept-utils\<close>

definition hasInterceptors :: "observableValue \<Rightarrow> bool" where
  "hasInterceptors interceptable =
     (case interceptors interceptable of None \<Rightarrow> False | Some hs \<Rightarrow> length hs > 0)"

text \<open>
  The loop of \<open>interceptChange\<close>; the first argument is what is left of the array, the
  second the index \<open>i\<close>.
\<close>

fun interceptChange_loop ::
  "interceptor list \<Rightarrow> nat \<Rightarrow> valueWillChange \<Rightarrow> run \<Rightarrow> (exn + valueWillChange option) \<times> run" where
  "interceptChange_loop [] i change r = (Inr (Some change), r)"
| "interceptChange_loop (h # hs) i change (tr, w) =
     (case h change w of
        (Inl e, w1) \<Rightarrow> (Inl e, (tr @ [InterceptorCall i], w1))
      | (Inr res, w1) \<Rightarrow>
          (case invariant (case res of None \<Rightarrow> True | Some c \<Rightarrow> truthy (changeType c))
                  ''Intercept handlers should return nothing or a change object'' of
             Some e \<Rightarrow> (Inl e, (tr @ [InterceptorCall i], w1))
           | None \<Rightarrow>
               (case res of
                  None \<Rightarrow> (Inr None, (tr @ [InterceptorCall i], w1))
                | Some c \<Rightarrow> interceptChange_loop hs (i + 1) c (tr @ [InterceptorCall i], w1))))"

text \<open>\<open>try { ... } finally { untrackedEnd(prevU) }\<close>: the end of the scope runs on every exit.\<close>

definition interceptChange ::
  "observableValue \<Rightarrow> valueWillChange \<Rightarrow> run \<Rightarrow> (exn + valueWillChange option) \<times> run" where
  "interceptChange interceptable change r =
     (let (prevU, w1) = untrackedStart (snd r);
          res = (case interceptors interceptable of
                   None \<Rightarrow> (Inr (Some change), (fst r, w1))
                 | Some hs \<Rightarrow> interceptChange_loop hs 0 change (fst r, w1))
      in (fst res, (fst (snd res), untrackedEnd prevU (snd (snd res)))))"

subsection \<open>listen-utils\<close>

definition hasListeners :: "observableValue \<Rightarrow> bool" where
  "hasListeners listenable =
     (case changeListeners listenable of None \<Rightarrow> False | Some ls \<Rightarrow> length ls > 0)"

fun notifyListeners_loop :: "listener list \<Rightarrow> nat \<Rightarrow> valueDidChange \<Rightarrow> run \<Rightarrow> exn option \<times> run" where
  "notifyListeners_loop [] i change r = (None, r)"
| "notifyListeners_loop (l # ls) i change (tr, w) =
     (case l change w of
        (Some e, w1) \<Rightarrow> (Some e, (tr @ [ListenerCall i change], w1))
      | (None, w1) \<Rightarrow> notifyListeners_loop ls (i + 1) change (tr @ [ListenerCall i change], w1))"

text \<open>
  \<open>notifyListeners\<close>: \<open>untrackedStart()\<close>, then \<open>if (!listeners) return;\<close>, then the loop
  over a copy of the array, then \<open>untrackedEnd(prevU)\<close>; no \<open>try\<close>.
\<close>

definition notifyListeners :: "observableValue \<Rightarrow> valueDidChange \<Rightarrow> run \<Rightarrow> exn option \<times> run" where
  "notifyListeners listenable change r =
     (let (prevU, w1) = untrackedStart (snd r) in
      case changeListeners listenable of
        None \<Rightarrow> (None, (fst r, w1))
      | Some listeners \<Rightarrow>
          (case notifyListeners_loop listeners 0 change (fst r, w1) of
             (Some e, r2) \<Rightarrow> (Some e, r2)
           | (None, r2) \<Rightarrow> (None, (fst r2, untrackedEnd prevU (snd r2)))))"

subsection \<open>ObservableValue\<close>

text \<open>
  The spy (\<open>core/spy\<close>) and \<open>reportChanged\<close> of \<open>BaseAtom\<close> (\<open>core/atom\<close>) are not among
  the sources; they are parameters, and their calls are logged.
\<close>

record collaborators =
  isSpyEnabled :: "world \<Rightarrow> bool"
  spyReportStart :: "world \<Rightarrow> world"
  spyReportEnd :: "world \<Rightarrow> world"
  reportChanged :: "nat \<Rightarrow> world \<Rightarrow> world"

datatype prepared = NewValue jsvalue | UNCHANGED

definition applyEnhancer :: "observableValue \<Rightarrow> jsvalue \<Rightarrow> run \<Rightarrow> (exn + prepared) \<times> run" where
  "applyEnhancer ov nv r =
     (case enhancer ov nv (storedValue ov) (name ov) of
        Inl e \<Rightarrow> (Inl e, r)
      | Inr v \<Rightarrow> (Inr (if storedValue ov \<noteq> v then NewValue v else UNCHANGED), r))"

definition prepareNewValue :: "observableValue \<Rightarrow> jsvalue \<Rightarrow> run \<Rightarrow> (exn + prepared) \<times> run" where
  "prepareNewValue ov nv r =
     (case checkIfStateModificationsAreAllowed (snd r) of
        Some e \<Rightarrow> (Inl e, r)
      | None \<Rightarrow>
          if hasInterceptors ov then
            (case interceptChange ov
                    \<lparr>changeObject = atomId ov, changeType = JStr ''update'', newValue = nv\<rparr> r of
               (Inl e, r1) \<Rightarrow> (Inl e, r1)
             | (Inr None, r1) \<Rightarrow> (Inr UNCHANGED, r1)
             | (Inr (Some change), r1) \<Rightarrow> applyEnhancer ov (newValue change) r1)
          else applyEnhancer ov nv r)"

definition setNewValue ::
  "collaborators \<Rightarrow> observableValue \<Rightarrow> jsvalue \<Rightarrow> run \<Rightarrow> exn option \<times> observableValue \<times> run" where
  "setNewValue env ov nv r =
     (let old = storedValue ov;
          ov1 = ov\<lparr>storedValue := nv\<rparr>;
          r1 = (fst r @ [ReportChanged (atomId ov1)], reportChanged env (atomId ov1) (snd r))
      in if hasListeners ov1 then
           (case notifyListeners ov1
                   \<lparr>changeObject = atomId ov1, changeType = JStr ''update'', newValue = nv,
                      oldValue = old\<rparr> r1 of
              (e, r2) \<Rightarrow> (e, ov1, r2))
         else (None, ov1, r1))"

definition setValue ::
  "collaborators \<Rightarrow> observableValue \<Rightarrow> jsvalue \<Rightarrow> run \<Rightarrow> exn option \<times> observableValue \<times> run" where
  "setValue env ov nv r =
     (case prepareNewValue ov nv r of
        (Inl e, r1) \<Rightarrow> (Some e, ov, r1)
      | (Inr UNCHANGED, r1) \<Rightarrow> (None, ov, r1)
      | (Inr (NewValue v), r1) \<Rightarrow>
          (let notifySpy = isSpyEnabled env (snd r1);
               r2 = (if notifySpy then (fst r1 @ [SpyReportStart], spyReportStart env (snd r1)) else r1)
           in case setNewValue env ov v r2 of
                (Some e, ov1, r3) \<Rightarrow> (Some e, ov1, r3)
              | (None, ov1, r3) \<Rightarrow>
                  (None, ov1,
                   if notifySpy then (fst r3 @ [SpyReportEnd], spyReportEnd env (snd r3)) else r3)))"

text \<open>\<open>referenceEnhancer\<close> of the modifiers: the new value as it is.\<close>

definition referenceEnhancer :: "jsvalue \<Rightarrow> jsvalue \<Rightarrow> string \<Rightarrow> exn + jsvalue" where
  "referenceEnhancer nv old nm = Inr nv"

section \<open>Concrete graphs\<close>

text \<open>A freshly constructed atom, a freshly constructed derivation, and the initial global state.\<close>

definition newObservable :: observable where
  "newObservable = \<lparr>diffValue = 0, lastAccessedBy = 0, lowestObserverState = NOT_TRACKING,
     isPendingUnobservation = True, observers = [], observersIndexes = Map.empty\<rparr>"

definition newDerivation :: "string \<Rightarrow> derivation" where
  "newDerivation m = \<lparr>observing = [], newObserving = None, dependenciesState = NOT_TRACKING,
     runId = 0, unboundDepsCount = 0, mapid = m\<rparr>"

definition initialWorld :: world where
  "initialWorld = \<lparr>trackingDerivation = None, globalRunId = 0, inBatch = 0,
     pendingUnobservations = [], allowStateChanges = True, strictMode = False,
     obsHeap = (\<lambda>_. newObservable), drvHeap = (\<lambda>_. newDerivation [])\<rparr>"

text \<open>Observable 0 with observers 1 (possibly stale), 2 (up to date) and 3 (stale).\<close>

definition confirmWorld :: world where
  "confirmWorld =
     updObs 0 (\<lambda>x. x\<lparr>observers := [1, 2, 3], lowestObserverState := UP_TO_DATE\<rparr>)
      (updDrv 1 (\<lambda>x. x\<lparr>dependenciesState := POSSIBLY_STALE\<rparr>)
      (updDrv 2 (\<lambda>x. x\<lparr>dependenciesState := UP_TO_DATE\<rparr>)
      (updDrv 3 (\<lambda>x. x\<lparr>dependenciesState := STALE\<rparr>) initialWorld)))"

text \<open>
  A diamond: observable 0 is observed by derivations 4 and 5; 5 is a computed value (it is
  observable 5 too) observed by 4. The hook of the computed value is
  \<open>propagateMaybeChanged(this)\<close>, the hook of 4 does nothing to the graph.
\<close>

definition diamondWorld :: world where
  "diamondWorld =
     updObs 0 (\<lambda>x. x\<lparr>observers := [4, 5], lowestObserverState := UP_TO_DATE\<rparr>)
      (updObs 5 (\<lambda>x. x\<lparr>observers := [4], lowestObserverState := UP_TO_DATE\<rparr>)
      (updDrv 4 (\<lambda>x. x\<lparr>dependenciesState := UP_TO_DATE, observing := [0, 5]\<rparr>)
      (updDrv 5 (\<lambda>x. x\<lparr>dependenciesState := UP_TO_DATE, observing := [0]\<rparr>) initialWorld)))"

definition diamondHook :: nodeHook where
  "diamondHook d w =
     (if d = 5 then snd (snd (propagateMaybeChanged (\<lambda>_ w'. w') 5 ([], w))) else w)"

text \<open>
  Outside any batch, with observable 7 queued for unobservation and without observers,
  and observable 8 queued but observed by derivation 9.
\<close>

definition batchWorld :: world where
  "batchWorld =
     (updObs 7 (\<lambda>x. x\<lparr>isPendingUnobservation := True, observers := []\<rparr>)
     (updObs 8 (\<lambda>x. x\<lparr>isPendingUnobservation := True, observers := [9]\<rparr>) initialWorld))
       \<lparr>pendingUnobservations := [7, 8]\<rparr>"

text \<open>
  Two atoms, 0 and 1, without observers and not queued, outside any batch and any
  derivation. The \<open>onBecomeUnobserved\<close> handler of atom 1 reads atom 0 (\<open>reportObserved\<close>);
  the handler of atom 0 does nothing. \<open>requeueBatch\<close> is the state just before the
  closing \<open>endBatch\<close> of a batch in which both atoms were read.
\<close>

definition requeueWorld :: world where
  "requeueWorld =
     updObs 0 (\<lambda>x. x\<lparr>isPendingUnobservation := False\<rparr>)
      (updObs 1 (\<lambda>x. x\<lparr>isPendingUnobservation := False\<rparr>) initialWorld)"

definition requeueHook :: nodeHook where
  "requeueHook ob w = (if ob = 1 then snd (reportObserved 0 w) else w)"

definition requeueBatch :: world where
  "requeueBatch = snd (reportObserved 1 (snd (reportObserved 0 (startBatch requeueWorld))))"

text \<open>
  Derivation 10 observes observables 0 and 1 from its previous run; observable 1 is also
  observed by derivation 11, observable 2 by nobody. Five run ids have been handed out,
  and derivation 12 is the one being tracked when derivation 10 is run.
\<close>

definition trackWorld :: world where
  "trackWorld =
     (updObs 0 (\<lambda>x. x\<lparr>observers := [10], lastAccessedBy := 3, lowestObserverState := STALE\<rparr>)
     (updObs 1 (\<lambda>x. x\<lparr>observers := [11, 10], observersIndexes := [''#10'' \<mapsto> 1],
                        lastAccessedBy := 5, lowestObserverState := UP_TO_DATE\<rparr>)
     (updDrv 10 (\<lambda>x. x\<lparr>observing := [0, 1], dependenciesState := STALE, runId := 3, mapid := ''#10''\<rparr>)
     (updDrv 11 (\<lambda>x. x\<lparr>observing := [1], dependenciesState := UP_TO_DATE, runId := 5, mapid := ''#11''\<rparr>)
     (updDrv 12 (\<lambda>x. x\<lparr>newObserving := Some [], dependenciesState := UP_TO_DATE, runId := 4,
                         mapid := ''#12''\<rparr>)
       initialWorld)))))
       \<lparr>globalRunId := 5, trackingDerivation := Some 12\<rparr>"

text \<open>
  A function that reads 1 and 2, evaluates a computed value that reads 1 in its own run
  (id 7), reads 1 and 2 again and returns; and one that reads 1 and 2 and throws.
\<close>

definition readsTwice :: "string trackedFunction" where
  "readsTwice = ([Observe 1, Observe 2, ObserveNested 7 1, Observe 1, Observe 2], Inr ''v'')"


text \<open>
  Derivation 20 is \<open>POSSIBLY_STALE\<close> and observes atom 21 and the computed values 22, 23
  and 24, in that order, while derivation 12 is being tracked. \<open>confirmGet\<close> is a \<open>get()\<close>
  that finds 22 unchanged and 23 changed: it reports 23 as changed to its observers
  (\<open>propagateChangeConfirmed\<close>). \<open>quietGet\<close> finds every computed value unchanged.
\<close>

definition staleCheckWorld :: world where
  "staleCheckWorld =
     (updObs 23 (\<lambda>x. x\<lparr>observers := [20], lowestObserverState := UP_TO_DATE\<rparr>)
     (updDrv 20 (\<lambda>x. x\<lparr>observing := [21, 22, 23, 24], dependenciesState := POSSIBLY_STALE\<rparr>)
       initialWorld))\<lparr>trackingDerivation := Some 12\<rparr>"

definition isComputed2x :: "nat \<Rightarrow> bool" where
  "isComputed2x ob = (ob \<in> {22, 23, 24})"

definition confirmGet :: getHook where
  "confirmGet c w = (None, if c = 23 then propagateChangeConfirmed 23 w else w)"

definition quietGet :: getHook where
  "quietGet c w = (None, w)"

text \<open>
  An observable value (atom 30) holding 1, without interceptors or listeners; the spy
  is off and \<open>reportChanged\<close> is \<open>propagateChanged\<close> with hooks that do nothing.
\<close>

definition plainValue :: observableValue where
  "plainValue = \<lparr>atomId = 30, name = ''ObservableValue@1'', storedValue = JNum 1,
     interceptors = None, changeListeners = None, enhancer = referenceEnhancer\<rparr>"

definition quietEnv :: collaborators where
  "quietEnv = \<lparr>isSpyEnabled = (\<lambda>_. False), spyReportStart = (\<lambda>w. w), spyReportEnd = (\<lambda>w. w),
     reportChanged = (\<lambda>ob w. snd (snd (propagateChanged (\<lambda>_ w'. w') ob ([], w))))\<rparr>"

text \<open>
  Interceptors: one that doubles a numeric new value, one that rejects the change, one
  that returns an object without \<open>type\<close>, one that throws. Listeners: one that does
  nothing, one that throws.
\<close>

definition doubling :: interceptor where
  "doubling c w = (Inr (Some (case newValue c of JNum n \<Rightarrow> c\<lparr>newValue := JNum (2 * n)\<rparr> | _ \<Rightarrow> c)), w)"

definition rejecting :: interceptor where
  "rejecting c w = (Inr None, w)"

definition untyped :: interceptor where
  "untyped c w = (Inr (Some (c\<lparr>changeType := Undefined\<rparr>)), w)"

definition throwing :: interceptor where
  "throwing c w = (Inl (Thrown ''interceptor''), w)"

definition silentListener :: listener where
  "silentListener c w = (None, w)"

definition throwingListener :: listener where
  "throwingListener c w = (Some (Thrown ''listener''), w)"

definition updateTo :: "jsvalue \<Rightarrow> valueWillChange" where
  "updateTo nv = \<lparr>changeObject = 30, changeType = JStr ''update'', newValue = nv\<rparr>"

text \<open>
  The value of atom 30 holding 4, with the doubling interceptor and a listener; and
  holding 1, with the doubling, the rejecting and the throwing interceptor, in that order.
\<close>

definition doubledValue :: observableValue where
  "doubledValue = plainValue\<lparr>storedValue := JNum 4, interceptors := Some [doubling],
     changeListeners := Some [silentListener]\<rparr>"


definition didUpdate :: valueDidChange where
  "didUpdate = \<lparr>changeObject = 30, changeType = JStr ''update'', newValue = JNum 2, oldValue = JNum 1\<rparr>"


section \<open>Store updates\<close>

lemma updObs_simps [simp]:
  "drvHeap (updObs ob f w) = drvHeap w"
  "obsHeap (updObs ob f w) = (obsHeap w)(ob := f (obsHeap w ob))"
  "trackingDerivation (updObs ob f w) = trackingDerivation w"
  "globalRunId (updObs ob f w) = globalRunId w"
  "inBatch (updObs ob f w) = inBatch w"
  "pendingUnobservations (updObs ob f w) = pendingUnobservations w"
  "allowStateChanges (updObs ob f w) = allowStateChanges w"
  "strictMode (updObs ob f w) = strictMode w"
  by (simp_all add: updObs_def)

lemma updDrv_simps [simp]:
  "obsHeap (updDrv d f w) = obsHeap w"
  "drvHeap (updDrv d f w) = (drvHeap w)(d := f (drvHeap w d))"
  "trackingDerivation (updDrv d f w) = trackingDerivation w"
  "globalRunId (updDrv d f w) = globalRunId w"
  "inBatch (updDrv d f w) = inBatch w"
  "pendingUnobservations (updDrv d f w) = pendingUnobservations w"
  "allowStateChanges (updDrv d f w) = allowStateChanges w"
  "strictMode (updDrv d f w) = strictMode w"
  by (simp_all add: updDrv_def)

lemmas fixture_defs = initialWorld_def newObservable_def newDerivation_def

section \<open>propagateChanged\<close>


lemma markStale_spec_observers:
  assumes "\<And>d w. observers (obsHeap (h d w) ob) = observers (obsHeap w ob)"
  shows "observers (obsHeap (snd (markStale_spec h ds (tr, w))) ob) = observers (obsHeap w ob)"
  using assms by (induction ds arbitrary: tr w) simp_all

lemma markStale_spec_los:
  assumes "\<And>d w. lowestObserverState (obsHeap (h d w) ob) = lowestObserverState (obsHeap w ob)"
  shows "lowestObserverState (obsHeap (snd (markStale_spec h ds (tr, w))) ob) = lowestObserverState (obsHeap w ob)"
  using assms by (induction ds arbitrary: tr w) simp_all

lemma markStale_spec_stale:
  assumes "\<And>d d' w. dependenciesState (drvHeap w d') = STALE \<Longrightarrow> dependenciesState (drvHeap (h d w) d') = STALE"
    and "d \<in> set ds \<or> dependenciesState (drvHeap w d) = STALE"
  shows "dependenciesState (drvHeap (snd (markStale_spec h ds (tr, w))) d) = STALE"
  using assms
proof (induction ds arbitrary: tr w)
  case Nil
  then show ?case by simp
next
  case (Cons a ds)
  show ?case
  proof (cases "dependenciesState (drvHeap w a) = UP_TO_DATE")
    case True
    have "d \<in> set ds \<or> dependenciesState (drvHeap (updDrv a (\<lambda>x. x\<lparr>dependenciesState := STALE\<rparr>) (h a w)) d) = STALE"
      using Cons.prems by auto
    from Cons.IH [OF Cons.prems(1) this] True show ?thesis by simp
  next
    case False
    have "d \<in> set ds \<or> dependenciesState (drvHeap (updDrv a (\<lambda>x. x\<lparr>dependenciesState := STALE\<rparr>) w) d) = STALE"
      using Cons.prems by auto
    from Cons.IH [OF Cons.prems(1) this] False show ?thesis by simp
  qed
qed

lemma propagateChanged_loop_refines:
  assumes "\<And>d w. observers (obsHeap (h d w) ob) = observers (obsHeap w ob)"
    and "n \<le> length (observers (obsHeap w ob))"
  shows "propagateChanged_loop h ob n (tr, w) =
           (None, markStale_spec h (rev (take n (observers (obsHeap w ob)))) (tr, w))"
  using assms(2)
proof (induction n arbitrary: tr w)
  case 0
  then show ?case by simp
next
  case (Suc n)
  then show ?case
    by (simp add: Let_def take_Suc_conv_app_nth assms(1))
qed

lemma maybeChanged_loop_obsHeap:
  "obsHeap (snd (snd (propagateMaybeChanged_loop (\<lambda>_ w'. w') ob n (tr, w)))) = obsHeap w"
  by (induction n arbitrary: tr w) (simp_all add: Let_def)

lemma maybeChanged_loop_stale:
  "dependenciesState (drvHeap w d') = STALE \<Longrightarrow>
   dependenciesState (drvHeap (snd (snd (propagateMaybeChanged_loop (\<lambda>_ w'. w') ob n (tr, w)))) d') = STALE"
proof (induction n arbitrary: tr w)
  case 0
  then show ?case by simp
next
  case (Suc n)
  show ?case
  proof (cases "n < length (observers (obsHeap w ob)) \<and>
                dependenciesState (drvHeap w (observers (obsHeap w ob) ! n)) = UP_TO_DATE")
    case True
    let ?w1 = "updDrv (observers (obsHeap w ob) ! n) (\<lambda>x. x\<lparr>dependenciesState := POSSIBLY_STALE\<rparr>) w"
    have "dependenciesState (drvHeap ?w1 d') = STALE"
      using Suc.prems True by auto
    from Suc.IH [OF this] True show ?thesis by (simp add: Let_def)
  next
    case False
    with Suc.IH [OF Suc.prems] Suc.prems show ?thesis by (auto simp: Let_def)
  qed
qed

lemma diamondHook_obs:
  "obsHeap (diamondHook d w) 0 = obsHeap w 0"
  by (simp add: diamondHook_def propagateMaybeChanged_def maybeChanged_loop_obsHeap)

lemma diamondHook_stale:
  "dependenciesState (drvHeap w d') = STALE \<Longrightarrow> dependenciesState (drvHeap (diamondHook d w) d') = STALE"
  by (simp add: diamondHook_def propagateMaybeChanged_def maybeChanged_loop_stale)

text \<open>
  C3. \<open>propagateChanged(obs)\<close> returns with nothing modified when
  \<open>obs.lowestObserverState\<close> is \<open>STALE\<close>. Otherwise it sets \<open>obs.lowestObserverState\<close> to
  \<open>STALE\<close> and walks the observers from the last to the first exactly as the specification words
  it (\<open>markStale_spec\<close>): \<open>onBecomeStale()\<close> is called on the observers that are
  \<open>UP_TO_DATE\<close> when visited, and every observer ends \<open>STALE\<close>. The hooks are those of
  the node classes: they leave the observers and the \<open>lowestObserverState\<close> of \<open>obs\<close>
  alone and never take a derivation out of \<open>STALE\<close>.
\<close>

theorem propagateChanged_effect:
  assumes "\<And>d w. observers (obsHeap (h d w) ob) = observers (obsHeap w ob)"
    and "\<And>d w. lowestObserverState (obsHeap (h d w) ob) = lowestObserverState (obsHeap w ob)"
    and "\<And>d d' w. dependenciesState (drvHeap w d') = STALE \<Longrightarrow>
           dependenciesState (drvHeap (h d w) d') = STALE"
  shows "if lowestObserverState (obsHeap w ob) = STALE
         then propagateChanged h ob (tr, w) = (None, (tr, w))
         else propagateChanged h ob (tr, w) =
                (None, markStale_spec h (rev (observers (obsHeap w ob)))
                         (tr, updObs ob (\<lambda>x. x\<lparr>lowestObserverState := STALE\<rparr>) w)) \<and>
              lowestObserverState (obsHeap (snd (snd (propagateChanged h ob (tr, w)))) ob) = STALE \<and>
              (\<forall>d \<in> set (observers (obsHeap (snd (snd (propagateChanged h ob (tr, w)))) ob)).
                 dependenciesState (drvHeap (snd (snd (propagateChanged h ob (tr, w)))) d) = STALE)"
proof (cases "lowestObserverState (obsHeap w ob) = STALE")
  case True
  then show ?thesis by (simp add: propagateChanged_def)
next
  case False
  let ?w0 = "updObs ob (\<lambda>x. x\<lparr>lowestObserverState := STALE\<rparr>) w"
  let ?ds = "rev (observers (obsHeap w ob))"
  have eq: "propagateChanged h ob (tr, w) = (None, markStale_spec h ?ds (tr, ?w0))"
    using False propagateChanged_loop_refines [OF assms(1), where n = "length (observers (obsHeap w ob))" and w = ?w0 and tr = tr]
    by (simp add: propagateChanged_def)
  have los: "lowestObserverState (obsHeap (snd (markStale_spec h ?ds (tr, ?w0))) ob) = STALE"
    using markStale_spec_los [OF assms(2), where ds = ?ds and tr = tr and w = ?w0] by simp
  have obs: "observers (obsHeap (snd (markStale_spec h ?ds (tr, ?w0))) ob) = observers (obsHeap w ob)"
    using markStale_spec_observers [OF assms(1), where ds = ?ds and tr = tr and w = ?w0] by simp
  have st: "dependenciesState (drvHeap (snd (markStale_spec h ?ds (tr, ?w0))) d) = STALE"
    if "d \<in> set (observers (obsHeap w ob))" for d
    using markStale_spec_stale [OF assms(3), where d = d and ds = ?ds and w = ?w0 and tr = tr] that by simp
  from False eq los obs st show ?thesis by simp
qed

theorem propagateChanged_effect_witness:
  "lowestObserverState (obsHeap diamondWorld 0) \<noteq> STALE \<and>
   propagateChanged diamondHook 0 ([], diamondWorld) =
     (None, markStale_spec diamondHook [5, 4]
        ([], updObs 0 (\<lambda>x. x\<lparr>lowestObserverState := STALE\<rparr>) diamondWorld)) \<and>
   fst (snd (propagateChanged diamondHook 0 ([], diamondWorld))) = [OnBecomeStale 5] \<and>
   dependenciesState (drvHeap (snd (snd (propagateChanged diamondHook 0 ([], diamondWorld)))) 4) = STALE \<and>
   dependenciesState (drvHeap (snd (snd (propagateChanged diamondHook 0 ([], diamondWorld)))) 5) = STALE"
proof -
  have a: "\<And>d w. observers (obsHeap (diamondHook d w) 0) = observers (obsHeap w 0)"
    by (simp add: diamondHook_obs)
  have b: "\<And>d w. lowestObserverState (obsHeap (diamondHook d w) 0) = lowestObserverState (obsHeap w 0)"
    by (simp add: diamondHook_obs)
  have c: "\<And>d d' w. dependenciesState (drvHeap w d') = STALE \<Longrightarrow>
             dependenciesState (drvHeap (diamondHook d w) d') = STALE"
    by (rule diamondHook_stale)
  have o: "observers (obsHeap diamondWorld 0) = [4, 5]"
    by (simp add: diamondWorld_def fixture_defs)
  have l: "lowestObserverState (obsHeap diamondWorld 0) \<noteq> STALE"
    by (simp add: diamondWorld_def fixture_defs)
  have t: "fst (markStale_spec diamondHook [5, 4]
        ([], updObs 0 (\<lambda>x. x\<lparr>lowestObserverState := STALE\<rparr>) diamondWorld)) = [OnBecomeStale 5]"
    by (simp add: diamondWorld_def fixture_defs diamondHook_def propagateMaybeChanged_def Let_def numeral_2_eq_2)
  note main = propagateChanged_effect [of diamondHook 0 diamondWorld "[]", OF a b c]
  note mainB = main [unfolded if_not_P [OF l]]
  have e: "propagateChanged diamondHook 0 ([], diamondWorld) =
     (None, markStale_spec diamondHook [5, 4]
        ([], updObs 0 (\<lambda>x. x\<lparr>lowestObserverState := STALE\<rparr>) diamondWorld))"
    using mainB [THEN conjunct1] by (simp add: o)
  note s = mainB [THEN conjunct2, THEN conjunct2]
  have x: "observers (obsHeap (snd (markStale_spec diamondHook [5, 4]
        ([], updObs 0 (\<lambda>x. x\<lparr>lowestObserverState := STALE\<rparr>) diamondWorld))) 0) =
      observers (obsHeap (updObs 0 (\<lambda>x. x\<lparr>lowestObserverState := STALE\<rparr>) diamondWorld) 0)"
    by (rule markStale_spec_observers [OF a])
  have y: "observers (obsHeap (updObs 0 (\<lambda>x. x\<lparr>lowestObserverState := STALE\<rparr>) diamondWorld) 0) = [4, 5]"
    by (simp add: o)
  have o': "observers (obsHeap (snd (snd (propagateChanged diamondHook 0 ([], diamondWorld)))) 0) = [4, 5]"
    unfolding e snd_conv by (rule trans [OF x y])
  from s o' have s4: "dependenciesState (drvHeap (snd (snd (propagateChanged diamondHook 0 ([], diamondWorld)))) 4) = STALE"
    and s5: "dependenciesState (drvHeap (snd (snd (propagateChanged diamondHook 0 ([], diamondWorld)))) 5) = STALE"
    by simp_all
  from t have t': "fst (snd (propagateChanged diamondHook 0 ([], diamondWorld))) = [OnBecomeStale 5]"
    by (simp add: e)
  from l e t' s4 s5 show ?thesis by blast
qed

section \<open>propagateChangeConfirmed\<close>

lemma confirmed_loop_drv:
  "n \<le> length (observers (obsHeap w ob)) \<Longrightarrow>
   dependenciesState (drvHeap (propagateChangeConfirmed_loop ob n w) d) =
     (if d \<in> set (take n (observers (obsHeap w ob))) \<and> dependenciesState (drvHeap w d) = POSSIBLY_STALE
      then STALE else dependenciesState (drvHeap w d))"
proof (induction n arbitrary: w)
  case 0
  then show ?case by simp
next
  case (Suc n)
  then show ?case
    by (auto simp: Let_def take_Suc_conv_app_nth)
qed

lemma confirmed_loop_los:
  "n \<le> length (observers (obsHeap w ob)) \<Longrightarrow>
   lowestObserverState (obsHeap (propagateChangeConfirmed_loop ob n w) ob) =
     (if \<exists>d \<in> set (take n (observers (obsHeap w ob))). dependenciesState (drvHeap w d) = UP_TO_DATE
      then UP_TO_DATE else lowestObserverState (obsHeap w ob))"
proof (induction n arbitrary: w)
  case 0
  then show ?case by simp
next
  case (Suc n)
  then show ?case
    by (auto simp: Let_def take_Suc_conv_app_nth)
qed

text \<open>
  C4. \<open>propagateChangeConfirmed(obs)\<close> does nothing when \<open>obs.lowestObserverState\<close> is
  already \<open>STALE\<close>. Otherwise every observer that is \<open>POSSIBLY_STALE\<close> becomes \<open>STALE\<close>,
  no other derivation changes state, and \<open>obs.lowestObserverState\<close> ends \<open>UP_TO_DATE\<close>
  when some observer is \<open>UP_TO_DATE\<close> (it is not locked at \<open>STALE\<close>) and \<open>STALE\<close> when
  none is.
\<close>

theorem propagateChangeConfirmed_effect:
  "(if lowestObserverState (obsHeap w ob) = STALE
    then propagateChangeConfirmed ob w = w
    else (\<forall>d. dependenciesState (drvHeap (propagateChangeConfirmed ob w) d) =
              (if d \<in> set (observers (obsHeap w ob)) \<and> dependenciesState (drvHeap w d) = POSSIBLY_STALE
               then STALE else dependenciesState (drvHeap w d))) \<and>
         lowestObserverState (obsHeap (propagateChangeConfirmed ob w) ob) =
              (if \<exists>d \<in> set (observers (obsHeap w ob)). dependenciesState (drvHeap w d) = UP_TO_DATE
               then UP_TO_DATE else STALE))"
  by (simp add: propagateChangeConfirmed_def confirmed_loop_drv confirmed_loop_los)

theorem propagateChangeConfirmed_effect_witness:
  "lowestObserverState (obsHeap confirmWorld 0) \<noteq> STALE \<and>
   dependenciesState (drvHeap (propagateChangeConfirmed 0 confirmWorld) 1) = STALE \<and>
   dependenciesState (drvHeap (propagateChangeConfirmed 0 confirmWorld) 2) = UP_TO_DATE \<and>
   dependenciesState (drvHeap (propagateChangeConfirmed 0 confirmWorld) 3) = STALE \<and>
   lowestObserverState (obsHeap (propagateChangeConfirmed 0 confirmWorld) 0) = UP_TO_DATE"
  using propagateChangeConfirmed_effect [of confirmWorld 0]
  by (simp add: confirmWorld_def fixture_defs)

section \<open>Tracking a run\<close>

lemma set_firstReadOrder [simp]: "set (firstReadOrder xs) = set xs"
  by (induction xs) auto

lemma distinct_firstReadOrder [simp]: "distinct (firstReadOrder xs)"
  by (induction xs) (auto simp: distinct_removeAll)

lemma firstReadOrder_snoc:
  "firstReadOrder (xs @ [x]) = (if x \<in> set xs then firstReadOrder xs else firstReadOrder xs @ [x])"
  by (induction xs) (auto simp: removeAll_id)

lemma firstReadOrder_cong_append:
  "firstReadOrder xs = firstReadOrder ys \<Longrightarrow> firstReadOrder (xs @ zs) = firstReadOrder (ys @ zs)"
proof (induction zs rule: rev_induct)
  case Nil
  then show ?case by simp
next
  case (snoc z zs)
  have "set (xs @ zs) = set (ys @ zs)"
    using snoc.prems set_firstReadOrder [of xs] set_firstReadOrder [of ys] by simp
  with snoc show ?case
    using firstReadOrder_snoc [of "xs @ zs" z] firstReadOrder_snoc [of "ys @ zs" z]
    by (simp del: set_append)
qed

lemma filled_map_Some [simp]: "filled (map Some xs) = xs"
  by (induction xs) auto

lemma arrayStore_length: "length (arrayStore xs i v) = max (length xs) (Suc i)"
  by (auto simp: arrayStore_def)

lemma take_arrayStore_end:
  "c \<le> length arr \<Longrightarrow> take c arr = map Some L \<Longrightarrow>
   take (Suc c) (arrayStore arr c v) = map Some (L @ [v])"
  by (auto simp: arrayStore_def take_Suc_conv_app_nth)


lemma reportObserved_tracking:
  assumes "trackingDerivation w = Some d"
    and "newObserving (drvHeap w d) = Some arr"
    and "unboundDepsCount (drvHeap w d) = length L"
    and "length L \<le> length arr"
    and "take (length L) arr = map Some L"
    and "\<forall>ob. lastAccessedBy (obsHeap w ob) = runId (drvHeap w d) \<longrightarrow> ob \<in> set L"
  shows "\<exists>w' arr' L'. reportObserved ob w = (None, w') \<and>
           trackingDerivation w' = Some d \<and>
           newObserving (drvHeap w' d) = Some arr' \<and>
           unboundDepsCount (drvHeap w' d) = length L' \<and>
           length L' \<le> length arr' \<and>
           take (length L') arr' = map Some L' \<and>
           (\<forall>ob. lastAccessedBy (obsHeap w' ob) = runId (drvHeap w' d) \<longrightarrow> ob \<in> set L') \<and>
           runId (drvHeap w' d) = runId (drvHeap w d) \<and>
           firstReadOrder L' = firstReadOrder (L @ [ob]) \<and>
           (\<forall>x. (obsHeap w' x)\<lparr>lastAccessedBy := 0\<rparr> = (obsHeap w x)\<lparr>lastAccessedBy := 0\<rparr>) \<and>
           (\<forall>x. (drvHeap w' x)\<lparr>newObserving := None, unboundDepsCount := 0\<rparr> =
                (drvHeap w x)\<lparr>newObserving := None, unboundDepsCount := 0\<rparr>) \<and>
           w'\<lparr>obsHeap := oh, drvHeap := dh\<rparr> = w\<lparr>obsHeap := oh, drvHeap := dh\<rparr>"
proof (cases "runId (drvHeap w d) = lastAccessedBy (obsHeap w ob)")
  case True
  with assms have "ob \<in> set L" by auto
  with True assms show ?thesis
    by (intro exI [of _ w] exI [of _ arr] exI [of _ L])
       (simp add: reportObserved_def firstReadOrder_snoc)
next
  case False
  let ?w1 = "updObs ob (\<lambda>x. x\<lparr>lastAccessedBy := runId (drvHeap w d)\<rparr>) w"
  let ?w' = "updDrv d (\<lambda>x. x\<lparr>newObserving := Some (arrayStore arr (unboundDepsCount x) ob),
                                          unboundDepsCount := unboundDepsCount x + 1\<rparr>) ?w1"
  have r: "reportObserved ob w = (None, ?w')"
    using False assms(1,2) by (simp add: reportObserved_def Let_def)
  have t: "take (Suc (length L)) (arrayStore arr (length L) ob) = map Some (L @ [ob])"
    using take_arrayStore_end [OF assms(4,5)] .
  have l: "Suc (length L) \<le> length (arrayStore arr (length L) ob)"
    by (simp add: arrayStore_length)
  show ?thesis
    using r t l assms
    by (intro exI [of _ ?w'] exI [of _ "arrayStore arr (length L) ob"] exI [of _ "L @ [ob]"])
       (auto simp: assms(3) updObs_def updDrv_def)
qed


lemma runActs_tracking:
  assumes "trackingDerivation w = Some d"
    and "newObserving (drvHeap w d) = Some arr"
    and "unboundDepsCount (drvHeap w d) = length L"
    and "length L \<le> length arr"
    and "take (length L) arr = map Some L"
    and "\<forall>ob. lastAccessedBy (obsHeap w ob) = runId (drvHeap w d) \<longrightarrow> ob \<in> set L"
    and "\<forall>r ob. ObserveNested r ob \<in> set as \<longrightarrow> r \<noteq> runId (drvHeap w d)"
  shows "\<exists>w' arr' L'. runActs as w = (None, w') \<and>
           trackingDerivation w' = Some d \<and>
           newObserving (drvHeap w' d) = Some arr' \<and>
           unboundDepsCount (drvHeap w' d) = length L' \<and>
           length L' \<le> length arr' \<and>
           take (length L') arr' = map Some L' \<and>
           firstReadOrder L' = firstReadOrder (L @ reads as) \<and>
           (\<forall>x. (obsHeap w' x)\<lparr>lastAccessedBy := 0\<rparr> = (obsHeap w x)\<lparr>lastAccessedBy := 0\<rparr>) \<and>
           (\<forall>x. (drvHeap w' x)\<lparr>newObserving := None, unboundDepsCount := 0\<rparr> =
                (drvHeap w x)\<lparr>newObserving := None, unboundDepsCount := 0\<rparr>) \<and>
           w'\<lparr>obsHeap := oh, drvHeap := dh\<rparr> = w\<lparr>obsHeap := oh, drvHeap := dh\<rparr>"
  using assms
proof (induction as arbitrary: w arr L)
  case Nil
  then show ?case by auto
next
  case (Cons a as)
  show ?case
  proof (cases a)
    case (Observe ob)
    from reportObserved_tracking [OF Cons.prems(1-6), where ob = ob and oh = oh and dh = dh]
    obtain w1 arr1 L1 where
      r: "reportObserved ob w = (None, w1)"
      and t: "trackingDerivation w1 = Some d"
      and n: "newObserving (drvHeap w1 d) = Some arr1"
      and u: "unboundDepsCount (drvHeap w1 d) = length L1"
      and l: "length L1 \<le> length arr1"
      and k: "take (length L1) arr1 = map Some L1"
      and a: "\<forall>ob. lastAccessedBy (obsHeap w1 ob) = runId (drvHeap w1 d) \<longrightarrow> ob \<in> set L1"
      and i: "runId (drvHeap w1 d) = runId (drvHeap w d)"
      and f: "firstReadOrder L1 = firstReadOrder (L @ [ob])"
      and fo: "\<forall>x. (obsHeap w1 x)\<lparr>lastAccessedBy := 0\<rparr> = (obsHeap w x)\<lparr>lastAccessedBy := 0\<rparr>"
      and fd: "\<forall>x. (drvHeap w1 x)\<lparr>newObserving := None, unboundDepsCount := 0\<rparr> =
                (drvHeap w x)\<lparr>newObserving := None, unboundDepsCount := 0\<rparr>"
      and fg: "w1\<lparr>obsHeap := oh, drvHeap := dh\<rparr> = w\<lparr>obsHeap := oh, drvHeap := dh\<rparr>"
      by blast
    have nest: "\<forall>r ob. ObserveNested r ob \<in> set as \<longrightarrow> r \<noteq> runId (drvHeap w1 d)"
      using Cons.prems(7) i by simp
    from Cons.IH [OF t n u l k a nest]
    obtain w' arr' L' where
      r': "runActs as w1 = (None, w')"
      and rest: "trackingDerivation w' = Some d" "newObserving (drvHeap w' d) = Some arr'"
        "unboundDepsCount (drvHeap w' d) = length L'" "length L' \<le> length arr'"
        "take (length L') arr' = map Some L'"
      and f': "firstReadOrder L' = firstReadOrder (L1 @ reads as)"
      and fo': "\<forall>x. (obsHeap w' x)\<lparr>lastAccessedBy := 0\<rparr> = (obsHeap w1 x)\<lparr>lastAccessedBy := 0\<rparr>"
      and fd': "\<forall>x. (drvHeap w' x)\<lparr>newObserving := None, unboundDepsCount := 0\<rparr> =
                (drvHeap w1 x)\<lparr>newObserving := None, unboundDepsCount := 0\<rparr>"
      and fg': "w'\<lparr>obsHeap := oh, drvHeap := dh\<rparr> = w1\<lparr>obsHeap := oh, drvHeap := dh\<rparr>"
      by blast
    have ff: "firstReadOrder (L1 @ reads as) = firstReadOrder ((L @ [ob]) @ reads as)"
      using f by (rule firstReadOrder_cong_append)
    have "runActs (a # as) w = (None, w')"
      using Observe r r' by simp
    moreover have "firstReadOrder L' = firstReadOrder (L @ reads (a # as))"
      using f' ff Observe by simp
    ultimately show ?thesis
      using rest fo fo' fd fd' fg fg' by (intro exI [of _ w'] exI [of _ arr'] exI [of _ L']) simp
  next
    case (ObserveNested r ob)
    let ?w1 = "if r \<noteq> lastAccessedBy (obsHeap w ob)
                 then updObs ob (\<lambda>x. x\<lparr>lastAccessedBy := r\<rparr>) w else w"
    have rne: "r \<noteq> runId (drvHeap w d)"
      using Cons.prems(7) ObserveNested by auto
    have t: "trackingDerivation ?w1 = Some d" using Cons.prems(1) by simp
    have n: "newObserving (drvHeap ?w1 d) = Some arr" using Cons.prems(2) by simp
    have u: "unboundDepsCount (drvHeap ?w1 d) = length L" using Cons.prems(3) by simp
    have a: "\<forall>ob. lastAccessedBy (obsHeap ?w1 ob) = runId (drvHeap ?w1 d) \<longrightarrow> ob \<in> set L"
      using Cons.prems(6) rne by auto
    have nest: "\<forall>r ob. ObserveNested r ob \<in> set as \<longrightarrow> r \<noteq> runId (drvHeap ?w1 d)"
      using Cons.prems(7) by auto
    from Cons.IH [OF t n u Cons.prems(4,5) a nest]
    obtain w' arr' L' where
      r': "runActs as ?w1 = (None, w')"
      and rest: "trackingDerivation w' = Some d" "newObserving (drvHeap w' d) = Some arr'"
        "unboundDepsCount (drvHeap w' d) = length L'" "length L' \<le> length arr'"
        "take (length L') arr' = map Some L'"
      and f': "firstReadOrder L' = firstReadOrder (L @ reads as)"
      and fo': "\<forall>x. (obsHeap w' x)\<lparr>lastAccessedBy := 0\<rparr> = (obsHeap ?w1 x)\<lparr>lastAccessedBy := 0\<rparr>"
      and fd': "\<forall>x. (drvHeap w' x)\<lparr>newObserving := None, unboundDepsCount := 0\<rparr> =
                (drvHeap ?w1 x)\<lparr>newObserving := None, unboundDepsCount := 0\<rparr>"
      and fg': "w'\<lparr>obsHeap := oh, drvHeap := dh\<rparr> = ?w1\<lparr>obsHeap := oh, drvHeap := dh\<rparr>"
      by blast
    have "runActs (a # as) w = (None, w')"
      using ObserveNested r' by simp
    moreover have "firstReadOrder L' = firstReadOrder (L @ reads (a # as))"
      using f' ObserveNested by simp
    moreover have "\<forall>x. (obsHeap w' x)\<lparr>lastAccessedBy := 0\<rparr> = (obsHeap w x)\<lparr>lastAccessedBy := 0\<rparr>"
      using fo' by (auto simp: updObs_def)
    moreover have "\<forall>x. (drvHeap w' x)\<lparr>newObserving := None, unboundDepsCount := 0\<rparr> =
                (drvHeap w x)\<lparr>newObserving := None, unboundDepsCount := 0\<rparr>"
      using fd' by (auto simp: updObs_def)
    moreover have "w'\<lparr>obsHeap := oh, drvHeap := dh\<rparr> = w\<lparr>obsHeap := oh, drvHeap := dh\<rparr>"
      using fg' by (auto simp: updObs_def)
    ultimately show ?thesis
      using rest by (intro exI [of _ w'] exI [of _ arr'] exI [of _ L']) simp
  qed
qed

declare bindDependencies_dedup.simps [simp del]

lemma bindDependencies_dedup_result:
  assumes "i \<le> l" and "l \<le> length arr" and "i0 \<le> i"
    and "\<forall>j. i \<le> j \<and> j < l \<longrightarrow> arr ! j = Some (L ! j)"
    and "length L = l"
    and "take i0 arr = map Some (firstReadOrder (take i L))"
    and "\<forall>ob. diffValue (obsHeap w ob) = (if ob \<in> set (take i L) then 1 else 0)"
  shows "\<exists>i0' arr' w'. bindDependencies_dedup i l i0 arr w = (None, i0', arr', w') \<and>
           i0' \<le> length arr' \<and>
           take i0' arr' = map Some (firstReadOrder L) \<and>
           (\<forall>ob. diffValue (obsHeap w' ob) = (if ob \<in> set L then 1 else 0)) \<and>
           (\<forall>x. (obsHeap w' x)\<lparr>diffValue := 0\<rparr> = (obsHeap w x)\<lparr>diffValue := 0\<rparr>) \<and>
           drvHeap w' = drvHeap w \<and>
           w'\<lparr>obsHeap := oh\<rparr> = w\<lparr>obsHeap := oh\<rparr>"
  using assms
proof (induction "l - i" arbitrary: i i0 arr w)
  case 0
  then have il: "i = l" by simp
  have "bindDependencies_dedup i l i0 arr w = (None, i0, arr, w)"
    using il by (simp add: bindDependencies_dedup.simps)
  moreover have "i0 \<le> length arr" using 0 by simp
  moreover have "take i0 arr = map Some (firstReadOrder L)"
    using 0 il by simp
  moreover have "\<forall>ob. diffValue (obsHeap w ob) = (if ob \<in> set L then 1 else 0)"
    using 0 il by simp
  ultimately show ?case by simp
next
  case (Suc n)
  then have lt: "i < l" by simp
  let ?dep = "L ! i"
  have ld: "arrayLoad arr i = Some ?dep"
    using Suc.prems lt by (simp add: arrayLoad_def)
  have tk: "take (Suc i) L = take i L @ [?dep]"
    using Suc.prems lt by (simp add: take_Suc_conv_app_nth)
  have n: "n = l - (i + 1)" using Suc.hyps(2) by simp
  have i0l: "i0 < length arr" using Suc.prems lt by simp
  show ?case
  proof (cases "diffValue (obsHeap w ?dep) = 0")
    case True
    then have nin: "?dep \<notin> set (take i L)"
      using Suc.prems(7) by (auto split: if_splits)
    let ?arr = "if i0 \<noteq> i then arrayStore arr i0 ?dep else arr"
    let ?w = "updObs ?dep (\<lambda>x. x\<lparr>diffValue := 1\<rparr>) w"
    have eq: "bindDependencies_dedup i l i0 arr w = bindDependencies_dedup (i + 1) l (i0 + 1) ?arr ?w"
      using lt ld True by (subst bindDependencies_dedup.simps) simp
    have len: "length ?arr = length arr"
      using i0l by (simp add: arrayStore_def)
    have a4: "\<forall>j. i + 1 \<le> j \<and> j < l \<longrightarrow> ?arr ! j = Some (L ! j)"
      using Suc.prems(3,4) i0l by (auto simp: arrayStore_def)
    have at: "?arr ! i0 = Some ?dep"
      using Suc.prems(4) lt i0l by (auto simp: arrayStore_def)
    have tk0: "take i0 ?arr = take i0 arr"
      using i0l by (simp add: arrayStore_def)
    have a6: "take (i0 + 1) ?arr = map Some (firstReadOrder (take (i + 1) L))"
      using tk0 at Suc.prems(6) nin i0l len
      by (simp add: take_Suc_conv_app_nth tk firstReadOrder_snoc)
    have a7: "\<forall>ob. diffValue (obsHeap ?w ob) = (if ob \<in> set (take (i + 1) L) then 1 else 0)"
      using Suc.prems(7) by (auto simp: tk)
    from Suc.hyps(1) [OF n _ _ _ a4 Suc.prems(5) a6 a7] lt Suc.prems(2,3) len
    obtain i0' arr' w' where
      r: "bindDependencies_dedup (i + 1) l (i0 + 1) ?arr ?w = (None, i0', arr', w')"
      and p: "i0' \<le> length arr'" "take i0' arr' = map Some (firstReadOrder L)"
        "\<forall>ob. diffValue (obsHeap w' ob) = (if ob \<in> set L then 1 else 0)"
      and fo: "\<forall>x. (obsHeap w' x)\<lparr>diffValue := 0\<rparr> = (obsHeap ?w x)\<lparr>diffValue := 0\<rparr>"
      and fd: "drvHeap w' = drvHeap ?w"
      and fg: "w'\<lparr>obsHeap := oh\<rparr> = ?w\<lparr>obsHeap := oh\<rparr>"
      by auto
    have "\<forall>x. (obsHeap w' x)\<lparr>diffValue := 0\<rparr> = (obsHeap w x)\<lparr>diffValue := 0\<rparr>"
      using fo by (auto simp: updObs_def)
    moreover have "w'\<lparr>obsHeap := oh\<rparr> = w\<lparr>obsHeap := oh\<rparr>"
      using fg by (simp add: updObs_def)
    ultimately show ?thesis
      using eq r p fd by (intro exI [of _ i0'] exI [of _ arr'] exI [of _ w']) simp
  next
    case False
    then have isin: "?dep \<in> set (take i L)"
      using Suc.prems(7) by (auto split: if_splits)
    have eq: "bindDependencies_dedup i l i0 arr w = bindDependencies_dedup (i + 1) l i0 arr w"
      using lt ld False by (subst bindDependencies_dedup.simps) simp
    have a4: "\<forall>j. i + 1 \<le> j \<and> j < l \<longrightarrow> arr ! j = Some (L ! j)"
      using Suc.prems(4) by auto
    have a6: "take i0 arr = map Some (firstReadOrder (take (i + 1) L))"
      using Suc.prems(6) isin by (simp add: tk firstReadOrder_snoc)
    have a7: "\<forall>ob. diffValue (obsHeap w ob) = (if ob \<in> set (take (i + 1) L) then 1 else 0)"
      using Suc.prems(7) isin by (auto simp: tk)
    from Suc.hyps(1) [OF n _ Suc.prems(2) _ a4 Suc.prems(5) a6 a7] lt Suc.prems(3)
    show ?thesis unfolding eq by auto
  qed
qed


lemma queueForUnobservation_frame:
  "drvHeap (queueForUnobservation ob w) = drvHeap w \<and>
   trackingDerivation (queueForUnobservation ob w) = trackingDerivation w"
  by (simp add: queueForUnobservation_def)

lemma removeObserver_frame:
  "drvHeap (snd (removeObserver ob node w)) = drvHeap w \<and>
   trackingDerivation (snd (removeObserver ob node w)) = trackingDerivation w"
  by (simp add: removeObserver_def queueForUnobservation_frame Let_def split: list.splits)

lemma addObserver_frame:
  "drvHeap (addObserver ob node w) = drvHeap w \<and>
   trackingDerivation (addObserver ob node w) = trackingDerivation w"
  by (simp add: addObserver_def Let_def)

lemma bindDependencies_unobserve_frame:
  "drvHeap (snd (bindDependencies_unobserve d prev l w)) = drvHeap w \<and>
   trackingDerivation (snd (bindDependencies_unobserve d prev l w)) = trackingDerivation w"
proof (induction l arbitrary: w)
  case 0
  then show ?case by simp
next
  case (Suc l)
  show ?case
    using removeObserver_frame [of "prev ! l" d w] Suc.IH
    by (simp add: Let_def split: option.splits)
qed

lemma bindDependencies_observe_frame:
  "drvHeap (snd (bindDependencies_observe d arr i0 w)) = drvHeap w \<and>
   trackingDerivation (snd (bindDependencies_observe d arr i0 w)) = trackingDerivation w"
proof (induction i0 arbitrary: w)
  case 0
  then show ?case by simp
next
  case (Suc i0)
  show ?case
    using Suc.IH by (simp add: addObserver_frame split: option.splits)
qed

lemma changeDependenciesStateTo0_loop_frame:
  "drvHeap (changeDependenciesStateTo0_loop d n w) = drvHeap w \<and>
   (\<forall>x. (obsHeap (changeDependenciesStateTo0_loop d n w) x)\<lparr>lowestObserverState := s\<rparr> =
        (obsHeap w x)\<lparr>lowestObserverState := s\<rparr>) \<and>
   (changeDependenciesStateTo0_loop d n w)\<lparr>obsHeap := oh\<rparr> = w\<lparr>obsHeap := oh\<rparr>"
  by (induction n arbitrary: w) (simp_all add: updObs_def)

lemma changeDependenciesStateTo0_frame:
  "(\<forall>x. (drvHeap (changeDependenciesStateTo0 d w) x)\<lparr>dependenciesState := t\<rparr> =
        (drvHeap w x)\<lparr>dependenciesState := t\<rparr>) \<and>
   (\<forall>x. (obsHeap (changeDependenciesStateTo0 d w) x)\<lparr>lowestObserverState := s\<rparr> =
        (obsHeap w x)\<lparr>lowestObserverState := s\<rparr>) \<and>
   (changeDependenciesStateTo0 d w)\<lparr>obsHeap := oh, drvHeap := dh\<rparr> = w\<lparr>obsHeap := oh, drvHeap := dh\<rparr>"
proof (cases "dependenciesState (drvHeap w d) = UP_TO_DATE")
  case True
  then show ?thesis by (simp add: changeDependenciesStateTo0_def)
next
  case False
  let ?w = "updDrv d (\<lambda>x. x\<lparr>dependenciesState := UP_TO_DATE\<rparr>) w"
  note f = changeDependenciesStateTo0_loop_frame [of d "length (observing (drvHeap w d))" ?w s oh]
  have "(changeDependenciesStateTo0_loop d (length (observing (drvHeap w d))) ?w)\<lparr>obsHeap := oh, drvHeap := dh\<rparr>
          = w\<lparr>obsHeap := oh, drvHeap := dh\<rparr>"
    using arg_cong [OF f [THEN conjunct2, THEN conjunct2], of "\<lambda>v. v\<lparr>drvHeap := dh\<rparr>"]
    by (simp add: updDrv_def)
  with f False show ?thesis
    by (simp add: changeDependenciesStateTo0_def)
qed

lemma bindDependencies_observing:
  assumes "newObserving (drvHeap w d) = Some arr"
    and "unboundDepsCount (drvHeap w d) = length L"
    and "length L \<le> length arr"
    and "take (length L) arr = map Some L"
    and "\<forall>ob. diffValue (obsHeap w ob) = 0"
  shows "observing (drvHeap (snd (bindDependencies d w)) d) = firstReadOrder L \<and>
         newObserving (drvHeap (snd (bindDependencies d w)) d) = None \<and>
         trackingDerivation (snd (bindDependencies d w)) = trackingDerivation w"
proof -
  let ?w0 = "updDrv d (\<lambda>x. x\<lparr>newObserving := None\<rparr>) w"
  have nth: "\<forall>j. 0 \<le> j \<and> j < length L \<longrightarrow> arr ! j = Some (L ! j)"
  proof (intro allI impI)
    fix j assume "0 \<le> j \<and> j < length L"
    then have "take (length L) arr ! j = arr ! j" by simp
    with assms(4) \<open>0 \<le> j \<and> j < length L\<close> show "arr ! j = Some (L ! j)" by simp
  qed
  have d0: "\<forall>ob. diffValue (obsHeap ?w0 ob) = (if ob \<in> set (take 0 L) then 1 else 0)"
    using assms(5) by simp
  have t0: "take 0 arr = map Some (firstReadOrder (take 0 L))" by simp
  from bindDependencies_dedup_result [OF _ assms(3) _ nth refl t0 d0, where oh = "obsHeap w"]
  obtain i0 arr1 w1 where
    r: "bindDependencies_dedup 0 (length L) 0 arr ?w0 = (None, i0, arr1, w1)"
    and le: "i0 \<le> length arr1"
    and tk: "take i0 arr1 = map Some (firstReadOrder L)"
    and fd: "drvHeap w1 = drvHeap ?w0"
    and fg: "w1\<lparr>obsHeap := obsHeap w\<rparr> = ?w0\<lparr>obsHeap := obsHeap w\<rparr>"
    by auto
  have sl: "arraySetLength arr1 i0 = map Some (firstReadOrder L)"
    using le tk by (simp add: arraySetLength_def)
  let ?w2 = "updDrv d (\<lambda>x. x\<lparr>observing := firstReadOrder L\<rparr>) w1"
  let ?r3 = "bindDependencies_unobserve d (observing (drvHeap w d)) (length (observing (drvHeap w d))) ?w2"
  have tr1: "trackingDerivation w1 = trackingDerivation w"
    using arg_cong [OF fg, of trackingDerivation] by simp
  have b: "bindDependencies d w =
             (case fst ?r3 of Some e \<Rightarrow> (Some e, snd ?r3)
              | None \<Rightarrow> bindDependencies_observe d (map Some (firstReadOrder L)) i0 (snd ?r3))"
    using assms(1,2) r sl by (simp add: bindDependencies_def Let_def cong: option.case_cong)
  have h3: "drvHeap (snd ?r3) = drvHeap ?w2" "trackingDerivation (snd ?r3) = trackingDerivation ?w2"
    using bindDependencies_unobserve_frame [of d "observing (drvHeap w d)" "length (observing (drvHeap w d))" ?w2]
    by simp_all
  have h4: "drvHeap (snd (bindDependencies_observe d (map Some (firstReadOrder L)) i0 (snd ?r3))) = drvHeap ?w2"
    "trackingDerivation (snd (bindDependencies_observe d (map Some (firstReadOrder L)) i0 (snd ?r3))) = trackingDerivation ?w2"
    using bindDependencies_observe_frame [of d "map Some (firstReadOrder L)" i0 "snd ?r3"] h3
    by simp_all
  have "drvHeap (snd (bindDependencies d w)) = drvHeap ?w2 \<and>
        trackingDerivation (snd (bindDependencies d w)) = trackingDerivation ?w2"
    unfolding b using h3 h4 by (cases "fst ?r3") simp_all
  then show ?thesis
    using fd tr1 by simp
qed

lemma changeDependenciesStateTo0_proj:
  "diffValue (obsHeap (changeDependenciesStateTo0 d w) x) = diffValue (obsHeap w x)"
  "lastAccessedBy (obsHeap (changeDependenciesStateTo0 d w) x) = lastAccessedBy (obsHeap w x)"
  "observers (obsHeap (changeDependenciesStateTo0 d w) x) = observers (obsHeap w x)"
  "observersIndexes (obsHeap (changeDependenciesStateTo0 d w) x) = observersIndexes (obsHeap w x)"
  "observing (drvHeap (changeDependenciesStateTo0 d w) y) = observing (drvHeap w y)"
  "mapid (drvHeap (changeDependenciesStateTo0 d w) y) = mapid (drvHeap w y)"
  "globalRunId (changeDependenciesStateTo0 d w) = globalRunId w"
  "trackingDerivation (changeDependenciesStateTo0 d w) = trackingDerivation w"
proof -
  note f = changeDependenciesStateTo0_frame [where d = d and w = w and s = UP_TO_DATE and t = UP_TO_DATE
      and oh = "obsHeap w" and dh = "drvHeap w"]
  note fo = f [THEN conjunct2, THEN conjunct1, rule_format, of x]
  note fd = f [THEN conjunct1, rule_format, of y]
  note fg = f [THEN conjunct2, THEN conjunct2]
  show "diffValue (obsHeap (changeDependenciesStateTo0 d w) x) = diffValue (obsHeap w x)"
    using arg_cong [OF fo, of diffValue] by simp
  show "lastAccessedBy (obsHeap (changeDependenciesStateTo0 d w) x) = lastAccessedBy (obsHeap w x)"
    using arg_cong [OF fo, of lastAccessedBy] by simp
  show "observers (obsHeap (changeDependenciesStateTo0 d w) x) = observers (obsHeap w x)"
    using arg_cong [OF fo, of observers] by simp
  show "observersIndexes (obsHeap (changeDependenciesStateTo0 d w) x) = observersIndexes (obsHeap w x)"
    using arg_cong [OF fo, of observersIndexes] by simp
  show "observing (drvHeap (changeDependenciesStateTo0 d w) y) = observing (drvHeap w y)"
    using arg_cong [OF fd, of observing] by simp
  show "mapid (drvHeap (changeDependenciesStateTo0 d w) y) = mapid (drvHeap w y)"
    using arg_cong [OF fd, of mapid] by simp
  show "globalRunId (changeDependenciesStateTo0 d w) = globalRunId w"
    using arg_cong [OF fg, of globalRunId] by simp
  show "trackingDerivation (changeDependenciesStateTo0 d w) = trackingDerivation w"
    using arg_cong [OF fg, of trackingDerivation] by simp
qed

lemma trackDerivedFunction_run:
  assumes diff0: "\<forall>ob. diffValue (obsHeap w ob) = 0"
    and la: "\<forall>ob. lastAccessedBy (obsHeap w ob) \<le> globalRunId w"
    and nest: "\<forall>r ob. ObserveNested r ob \<in> set (fst f) \<longrightarrow> r \<noteq> globalRunId w + 1"
  shows "observing (drvHeap (snd (trackDerivedFunction d f w)) d) = firstReadOrder (reads (fst f)) \<and>
         newObserving (drvHeap (snd (trackDerivedFunction d f w)) d) = None \<and>
         trackingDerivation (snd (trackDerivedFunction d f w)) = trackingDerivation w \<and>
         (case fst (trackDerivedFunction d f w) of
            Inl flt \<Rightarrow> True
          | Inr res \<Rightarrow> res = (case snd f of Inl e \<Rightarrow> CaughtException e | Inr v \<Rightarrow> Value v))"
proof -
  let ?w1 = "changeDependenciesStateTo0 d w"
  let ?arr = "replicate (length (observing (drvHeap ?w1 d)) + 100) None :: nat option list"
  let ?w2 = "updDrv d (\<lambda>x. x\<lparr>newObserving :=
                 Some (replicate (length (observing x) + 100) None)\<rparr>) ?w1"
  let ?w3 = "updDrv d (\<lambda>x. x\<lparr>unboundDepsCount := 0\<rparr>) ?w2"
  let ?w4 = "updDrv d (\<lambda>x. x\<lparr>runId := globalRunId ?w3 + 1\<rparr>) (?w3\<lparr>globalRunId := globalRunId ?w3 + 1\<rparr>)"
  let ?w5 = "?w4\<lparr>trackingDerivation := Some d\<rparr>"
  have p1: "trackingDerivation ?w5 = Some d" by simp
  have p2: "newObserving (drvHeap ?w5 d) = Some ?arr" by (simp add: updDrv_def)
  have p3: "unboundDepsCount (drvHeap ?w5 d) = length ([] :: nat list)" by (simp add: updDrv_def)
  have p4: "length ([] :: nat list) \<le> length ?arr" by simp
  have p5: "take (length ([] :: nat list)) ?arr = map Some []" by simp
  have rid: "runId (drvHeap ?w5 d) = globalRunId w + 1"
    by (simp add: updDrv_def changeDependenciesStateTo0_proj)
  have p6: "\<forall>ob. lastAccessedBy (obsHeap ?w5 ob) = runId (drvHeap ?w5 d) \<longrightarrow> ob \<in> set []"
  proof (intro allI impI)
    fix ob assume a: "lastAccessedBy (obsHeap ?w5 ob) = runId (drvHeap ?w5 d)"
    have "lastAccessedBy (obsHeap ?w5 ob) = lastAccessedBy (obsHeap w ob)"
      by (simp add: updDrv_def changeDependenciesStateTo0_proj)
    with a rid la [rule_format, of ob] show "ob \<in> set []" by simp
  qed
  have p7: "\<forall>r ob. ObserveNested r ob \<in> set (fst f) \<longrightarrow> r \<noteq> runId (drvHeap ?w5 d)"
    using nest rid by simp
  from runActs_tracking [OF p1 p2 p3 p4 p5 p6 p7, where oh = "obsHeap w" and dh = "drvHeap w"]
  obtain w6 arr' L' where
    r: "runActs (fst f) ?w5 = (None, w6)"
    and n6: "newObserving (drvHeap w6 d) = Some arr'"
    and u6: "unboundDepsCount (drvHeap w6 d) = length L'"
    and l6: "length L' \<le> length arr'"
    and t6: "take (length L') arr' = map Some L'"
    and f6: "firstReadOrder L' = firstReadOrder ([] @ reads (fst f))"
    and fo: "\<forall>x. (obsHeap w6 x)\<lparr>lastAccessedBy := 0\<rparr> = (obsHeap ?w5 x)\<lparr>lastAccessedBy := 0\<rparr>"
    by blast
  let ?res = "case snd f of Inl e \<Rightarrow> CaughtException e | Inr v \<Rightarrow> Value v"
  have c: "callTracked f ?w5 = (?res, w6)"
    using r by (simp add: callTracked_def split: sum.splits)
  let ?w7 = "w6\<lparr>trackingDerivation := trackingDerivation ?w4\<rparr>"
  have d7: "\<forall>ob. diffValue (obsHeap ?w7 ob) = 0"
  proof
    fix ob
    have "diffValue (obsHeap w6 ob) = diffValue (obsHeap ?w5 ob)"
      using arg_cong [OF fo [rule_format, of ob], of diffValue] by simp
    also have "\<dots> = diffValue (obsHeap w ob)"
      by (simp add: updDrv_def changeDependenciesStateTo0_proj)
    finally show "diffValue (obsHeap ?w7 ob) = 0" using diff0 by simp
  qed
  have n7: "newObserving (drvHeap ?w7 d) = Some arr'" using n6 by simp
  have u7: "unboundDepsCount (drvHeap ?w7 d) = length L'" using u6 by simp
  note b = bindDependencies_observing [OF n7 u7 l6 t6 d7]
  have tdf: "trackDerivedFunction d f w =
        (case fst (bindDependencies d ?w7) of
           Some flt \<Rightarrow> (Inl flt, snd (bindDependencies d ?w7))
         | None \<Rightarrow> (Inr ?res, snd (bindDependencies d ?w7)))"
    unfolding trackDerivedFunction_def Let_def c
    by (simp split: prod.splits option.splits)
  have t4: "trackingDerivation ?w4 = trackingDerivation w"
    by (simp add: changeDependenciesStateTo0_proj)
  show ?thesis
    unfolding tdf using b f6 t4 by (cases "fst (bindDependencies d ?w7)") simp_all
qed

lemma removeObserver_ok:
  "removable w d ob \<Longrightarrow> fst (removeObserver ob d w) = None"
  by (cases "observers (obsHeap w ob)" rule: rev_cases)
     (auto simp: removable_def removeObserver_def Let_def split: option.splits)

lemma removeObserver_other:
  "ob' \<noteq> ob \<Longrightarrow> obsHeap (snd (removeObserver ob d w)) ob' = obsHeap w ob'"
  by (cases "observers (obsHeap w ob)" rule: rev_cases)
     (auto simp: removeObserver_def queueForUnobservation_def Let_def split: option.splits)

lemma removable_cong:
  assumes "observers (obsHeap w' ob) = observers (obsHeap w ob)"
    and "observersIndexes (obsHeap w' ob) = observersIndexes (obsHeap w ob)"
    and "mapid (drvHeap w' d) = mapid (drvHeap w d)"
  shows "removable w' d ob = removable w d ob"
  using assms by (simp add: removable_def)

lemma bindDependencies_unobserve_ok:
  assumes "l \<le> length prev" and "distinct (take l prev)"
    and "\<forall>ob \<in> set (take l prev). removable w d ob"
  shows "fst (bindDependencies_unobserve d prev l w) = None"
  using assms
proof (induction l arbitrary: w)
  case 0
  then show ?case by simp
next
  case (Suc l)
  let ?dep = "prev ! l"
  let ?r = "if diffValue (obsHeap w ?dep) = 0 then removeObserver ?dep d w else (None, w)"
  let ?w = "updObs ?dep (\<lambda>x. x\<lparr>diffValue := 0\<rparr>) (snd ?r)"
  have tk: "take (Suc l) prev = take l prev @ [?dep]"
    using Suc.prems(1) by (simp add: take_Suc_conv_app_nth)
  have nin: "?dep \<notin> set (take l prev)" and dis: "distinct (take l prev)"
    using Suc.prems(2) by (simp_all add: tk)
  have rm: "removable w d ?dep" using Suc.prems(3) by (simp add: tk)
  have ok: "fst ?r = None" using removeObserver_ok [OF rm] by simp
  have keep: "\<forall>ob \<in> set (take l prev). removable ?w d ob"
  proof
    fix ob assume m: "ob \<in> set (take l prev)"
    with nin have ne: "ob \<noteq> ?dep" by auto
    have o: "obsHeap ?w ob = obsHeap w ob"
      using ne removeObserver_other [OF ne, of d w] by simp
    have dh: "drvHeap ?w = drvHeap w"
      using removeObserver_frame [of ?dep d w] by simp
    have "removable ?w d ob = removable w d ob"
      by (rule removable_cong) (simp_all only: o dh)
    with Suc.prems(3) m show "removable ?w d ob" by (simp add: tk)
  qed
  have "fst (bindDependencies_unobserve d prev l ?w) = None"
    using Suc.IH [OF _ dis keep] Suc.prems(1) by simp
  with ok show ?case by (simp add: Let_def)
qed

lemma bindDependencies_observe_ok:
  "i0 \<le> length K \<Longrightarrow> fst (bindDependencies_observe d (map Some K) i0 w) = None"
  by (induction i0 arbitrary: w) (simp_all add: arrayLoad_def)

lemma bindDependencies_returns:
  assumes "newObserving (drvHeap w d) = Some arr"
    and "unboundDepsCount (drvHeap w d) = length L"
    and "length L \<le> length arr"
    and "take (length L) arr = map Some L"
    and "\<forall>ob. diffValue (obsHeap w ob) = 0"
    and "distinct (observing (drvHeap w d))"
    and "\<forall>ob \<in> set (observing (drvHeap w d)). removable w d ob"
  shows "fst (bindDependencies d w) = None"
proof -
  let ?w0 = "updDrv d (\<lambda>x. x\<lparr>newObserving := None\<rparr>) w"
  let ?prev = "observing (drvHeap w d)"
  have nth: "\<forall>j. 0 \<le> j \<and> j < length L \<longrightarrow> arr ! j = Some (L ! j)"
  proof (intro allI impI)
    fix j assume "0 \<le> j \<and> j < length L"
    then have "take (length L) arr ! j = arr ! j" by simp
    with assms(4) \<open>0 \<le> j \<and> j < length L\<close> show "arr ! j = Some (L ! j)" by simp
  qed
  have d0: "\<forall>ob. diffValue (obsHeap ?w0 ob) = (if ob \<in> set (take 0 L) then 1 else 0)"
    using assms(5) by simp
  have t0: "take 0 arr = map Some (firstReadOrder (take 0 L))" by simp
  from bindDependencies_dedup_result [OF _ assms(3) _ nth refl t0 d0, where oh = "obsHeap w"]
  obtain i0 arr1 w1 where
    r: "bindDependencies_dedup 0 (length L) 0 arr ?w0 = (None, i0, arr1, w1)"
    and le: "i0 \<le> length arr1"
    and tk: "take i0 arr1 = map Some (firstReadOrder L)"
    and fo: "\<forall>x. (obsHeap w1 x)\<lparr>diffValue := 0\<rparr> = (obsHeap ?w0 x)\<lparr>diffValue := 0\<rparr>"
    and fd: "drvHeap w1 = drvHeap ?w0"
    by auto
  have sl: "arraySetLength arr1 i0 = map Some (firstReadOrder L)"
    using le tk by (simp add: arraySetLength_def)
  have i0: "i0 = length (firstReadOrder L)"
    using arg_cong [OF tk, of length] le by simp
  let ?w2 = "updDrv d (\<lambda>x. x\<lparr>observing := firstReadOrder L\<rparr>) w1"
  let ?r3 = "bindDependencies_unobserve d ?prev (length ?prev) ?w2"
  have b: "bindDependencies d w =
             (case fst ?r3 of Some e \<Rightarrow> (Some e, snd ?r3)
              | None \<Rightarrow> bindDependencies_observe d (map Some (firstReadOrder L)) i0 (snd ?r3))"
    using assms(1,2) r sl by (simp add: bindDependencies_def Let_def cong: option.case_cong)
  have rm: "\<forall>ob \<in> set (take (length ?prev) ?prev). removable ?w2 d ob"
  proof
    fix ob assume m: "ob \<in> set (take (length ?prev) ?prev)"
    have o1: "observers (obsHeap ?w2 ob) = observers (obsHeap w ob)"
      using arg_cong [OF fo [rule_format, of ob], of observers] by simp
    have o2: "observersIndexes (obsHeap ?w2 ob) = observersIndexes (obsHeap w ob)"
      using arg_cong [OF fo [rule_format, of ob], of observersIndexes] by simp
    have o3: "mapid (drvHeap ?w2 d) = mapid (drvHeap w d)"
      using fd by simp
    have "removable ?w2 d ob = removable w d ob"
      using o1 o2 o3 by (rule removable_cong)
    with assms(7) m show "removable ?w2 d ob" by simp
  qed
  have "fst ?r3 = None"
    using bindDependencies_unobserve_ok [OF _ _ rm] assms(6) by simp
  moreover have "fst (bindDependencies_observe d (map Some (firstReadOrder L)) i0 (snd ?r3)) = None"
    using bindDependencies_observe_ok [of i0 "firstReadOrder L" d "snd ?r3"] i0 by simp
  ultimately show ?thesis unfolding b by simp
qed

lemma trackDerivedFunction_returns:
  assumes diff0: "\<forall>ob. diffValue (obsHeap w ob) = 0"
    and la: "\<forall>ob. lastAccessedBy (obsHeap w ob) \<le> globalRunId w"
    and nest: "\<forall>r ob. ObserveNested r ob \<in> set (fst f) \<longrightarrow> r \<noteq> globalRunId w + 1"
    and dist: "distinct (observing (drvHeap w d))"
    and rem: "\<forall>ob \<in> set (observing (drvHeap w d)). removable w d ob"
  shows "fst (trackDerivedFunction d f w) =
           Inr (case snd f of Inl e \<Rightarrow> CaughtException e | Inr v \<Rightarrow> Value v)"
proof -
  let ?w1 = "changeDependenciesStateTo0 d w"
  let ?arr = "replicate (length (observing (drvHeap ?w1 d)) + 100) None :: nat option list"
  let ?w2 = "updDrv d (\<lambda>x. x\<lparr>newObserving :=
                 Some (replicate (length (observing x) + 100) None)\<rparr>) ?w1"
  let ?w3 = "updDrv d (\<lambda>x. x\<lparr>unboundDepsCount := 0\<rparr>) ?w2"
  let ?w4 = "updDrv d (\<lambda>x. x\<lparr>runId := globalRunId ?w3 + 1\<rparr>) (?w3\<lparr>globalRunId := globalRunId ?w3 + 1\<rparr>)"
  let ?w5 = "?w4\<lparr>trackingDerivation := Some d\<rparr>"
  have p1: "trackingDerivation ?w5 = Some d" by simp
  have p2: "newObserving (drvHeap ?w5 d) = Some ?arr" by (simp add: updDrv_def)
  have p3: "unboundDepsCount (drvHeap ?w5 d) = length ([] :: nat list)" by (simp add: updDrv_def)
  have p4: "length ([] :: nat list) \<le> length ?arr" by simp
  have p5: "take (length ([] :: nat list)) ?arr = map Some []" by simp
  have rid: "runId (drvHeap ?w5 d) = globalRunId w + 1"
    by (simp add: updDrv_def changeDependenciesStateTo0_proj)
  have p6: "\<forall>ob. lastAccessedBy (obsHeap ?w5 ob) = runId (drvHeap ?w5 d) \<longrightarrow> ob \<in> set []"
  proof (intro allI impI)
    fix ob assume a: "lastAccessedBy (obsHeap ?w5 ob) = runId (drvHeap ?w5 d)"
    have "lastAccessedBy (obsHeap ?w5 ob) = lastAccessedBy (obsHeap w ob)"
      by (simp add: updDrv_def changeDependenciesStateTo0_proj)
    with a rid la [rule_format, of ob] show "ob \<in> set []" by simp
  qed
  have p7: "\<forall>r ob. ObserveNested r ob \<in> set (fst f) \<longrightarrow> r \<noteq> runId (drvHeap ?w5 d)"
    using nest rid by simp
  from runActs_tracking [OF p1 p2 p3 p4 p5 p6 p7, where oh = "obsHeap w" and dh = "drvHeap w"]
  obtain w6 arr' L' where
    r: "runActs (fst f) ?w5 = (None, w6)"
    and n6: "newObserving (drvHeap w6 d) = Some arr'"
    and u6: "unboundDepsCount (drvHeap w6 d) = length L'"
    and l6: "length L' \<le> length arr'"
    and t6: "take (length L') arr' = map Some L'"
    and fo: "\<forall>x. (obsHeap w6 x)\<lparr>lastAccessedBy := 0\<rparr> = (obsHeap ?w5 x)\<lparr>lastAccessedBy := 0\<rparr>"
    and fd: "\<forall>x. (drvHeap w6 x)\<lparr>newObserving := None, unboundDepsCount := 0\<rparr> =
                (drvHeap ?w5 x)\<lparr>newObserving := None, unboundDepsCount := 0\<rparr>"
    by blast
  let ?res = "case snd f of Inl e \<Rightarrow> CaughtException e | Inr v \<Rightarrow> Value v"
  have c: "callTracked f ?w5 = (?res, w6)"
    using r by (simp add: callTracked_def split: sum.splits)
  let ?w7 = "w6\<lparr>trackingDerivation := trackingDerivation ?w4\<rparr>"
  have d7: "\<forall>ob. diffValue (obsHeap ?w7 ob) = 0"
  proof
    fix ob
    have "diffValue (obsHeap w6 ob) = diffValue (obsHeap ?w5 ob)"
      using arg_cong [OF fo [rule_format, of ob], of diffValue] by simp
    also have "\<dots> = diffValue (obsHeap w ob)"
      by (simp add: updDrv_def changeDependenciesStateTo0_proj)
    finally show "diffValue (obsHeap ?w7 ob) = 0" using diff0 by simp
  qed
  have n7: "newObserving (drvHeap ?w7 d) = Some arr'" using n6 by simp
  have u7: "unboundDepsCount (drvHeap ?w7 d) = length L'" using u6 by simp
  have ob7: "observing (drvHeap ?w7 d) = observing (drvHeap w d)"
    using arg_cong [OF fd [rule_format, of d], of observing]
    by (simp add: updDrv_def changeDependenciesStateTo0_proj)
  have m7: "mapid (drvHeap ?w7 d) = mapid (drvHeap w d)"
    using arg_cong [OF fd [rule_format, of d], of mapid]
    by (simp add: updDrv_def changeDependenciesStateTo0_proj)
  have dist7: "distinct (observing (drvHeap ?w7 d))"
    using dist ob7 by simp
  have rem7: "\<forall>ob \<in> set (observing (drvHeap ?w7 d)). removable ?w7 d ob"
  proof
    fix ob assume m: "ob \<in> set (observing (drvHeap ?w7 d))"
    have o1: "observers (obsHeap ?w7 ob) = observers (obsHeap w ob)"
      using arg_cong [OF fo [rule_format, of ob], of observers]
      by (simp add: updDrv_def changeDependenciesStateTo0_proj)
    have o2: "observersIndexes (obsHeap ?w7 ob) = observersIndexes (obsHeap w ob)"
      using arg_cong [OF fo [rule_format, of ob], of observersIndexes]
      by (simp add: updDrv_def changeDependenciesStateTo0_proj)
    have "removable ?w7 d ob = removable w d ob"
      using o1 o2 m7 by (rule removable_cong)
    with rem m ob7 show "removable ?w7 d ob" by simp
  qed
  note b = bindDependencies_returns [OF n7 u7 l6 t6 d7 dist7 rem7]
  have tdf: "trackDerivedFunction d f w =
        (case fst (bindDependencies d ?w7) of
           Some flt \<Rightarrow> (Inl flt, snd (bindDependencies d ?w7))
         | None \<Rightarrow> (Inr ?res, snd (bindDependencies d ?w7)))"
    unfolding trackDerivedFunction_def Let_def c
    by (simp split: prod.splits option.splits)
  show ?thesis
    unfolding tdf using b by simp
qed

lemma trackWorld_facts:
  "\<forall>ob. diffValue (obsHeap trackWorld ob) = 0"
  "\<forall>ob. lastAccessedBy (obsHeap trackWorld ob) \<le> globalRunId trackWorld"
  "distinct (observing (drvHeap trackWorld 10))"
  "\<forall>ob \<in> set (observing (drvHeap trackWorld 10)). removable trackWorld 10 ob"
  "trackingDerivation trackWorld = Some 12"
  "globalRunId trackWorld = 5"
  by (simp_all add: trackWorld_def fixture_defs removable_def)

text \<open>
  C1. After \<open>trackDerivedFunction(d, f, ctx)\<close>, \<open>d.observing\<close> holds every observable that
  \<open>f\<close> read, once, in the order of the first reads, and \<open>d.newObserving\<close> is null. The
  run starts from a graph in which no \<open>diffValue\<close> is left set and no \<open>lastAccessedBy\<close>
  exceeds the run ids handed out so far, and the runs nested in \<open>f\<close> have ids of their own.
\<close>

theorem trackDerivedFunction_observing:
  assumes "\<forall>ob. diffValue (obsHeap w ob) = 0"
    and "\<forall>ob. lastAccessedBy (obsHeap w ob) \<le> globalRunId w"
    and "\<forall>r ob. ObserveNested r ob \<in> set (fst f) \<longrightarrow> r \<noteq> globalRunId w + 1"
  shows "observing (drvHeap (snd (trackDerivedFunction d f w)) d) = firstReadOrder (reads (fst f)) \<and>
         distinct (observing (drvHeap (snd (trackDerivedFunction d f w)) d)) \<and>
         set (observing (drvHeap (snd (trackDerivedFunction d f w)) d)) = set (reads (fst f)) \<and>
         newObserving (drvHeap (snd (trackDerivedFunction d f w)) d) = None"
  using trackDerivedFunction_run [OF assms, of d] by simp

theorem trackDerivedFunction_observing_witness:
  "fst (trackDerivedFunction 10 readsTwice trackWorld) = Inr (Value ''v'') \<and>
   observing (drvHeap (snd (trackDerivedFunction 10 readsTwice trackWorld)) 10) = [1, 2] \<and>
   newObserving (drvHeap (snd (trackDerivedFunction 10 readsTwice trackWorld)) 10) = None"
proof -
  have n: "\<forall>r ob. ObserveNested r ob \<in> set (fst readsTwice) \<longrightarrow> r \<noteq> globalRunId trackWorld + 1"
    by (simp add: readsTwice_def trackWorld_facts(6))
  have f: "firstReadOrder (reads (fst readsTwice)) = [1, 2]"
    by (simp add: readsTwice_def)
  have r: "fst (trackDerivedFunction 10 readsTwice trackWorld) = Inr (Value ''v'')"
    using trackDerivedFunction_returns [OF trackWorld_facts(1,2) n trackWorld_facts(3,4)]
    by (simp add: readsTwice_def)
  from trackDerivedFunction_observing [OF trackWorld_facts(1,2) n, of 10] f r
  show ?thesis by simp
qed



section \<open>shouldCompute\<close>

lemma shouldCompute_loop_refines:
  "shouldCompute_loop isCV get d prev obs (tr, w) =
     confirm_spec get d prev (filter isCV obs) (tr, w)"
  by (induction obs arbitrary: tr w)
     (auto simp: Let_def untrackedEnd_def split: prod.splits option.splits)

lemma confirm_spec_tracking:
  "trackingDerivation (snd (snd (confirm_spec get d prev cs (tr, w)))) = prev"
proof (induction cs arbitrary: tr w)
  case Nil
  then show ?case by simp
next
  case (Cons c cs)
  then show ?case by (simp add: Let_def)
qed

lemma confirm_spec_log:
  "\<exists>k \<le> length cs. fst (snd (confirm_spec get d prev cs (tr, w))) = tr @ map ComputedGet (take k cs) \<and>
     (fst (confirm_spec get d prev cs (tr, w)) \<longrightarrow> 0 < k) \<and>
     (\<not> fst (confirm_spec get d prev cs (tr, w)) \<longrightarrow> k = length cs)"
proof (induction cs arbitrary: tr w)
  case Nil
  then show ?case by simp
next
  case (Cons c cs)
  let ?r = "get c w"
  show ?case
  proof (cases "fst ?r \<noteq> None \<or> dependenciesState (drvHeap (snd ?r) d) = STALE")
    case True
    then have "confirm_spec get d prev (c # cs) (tr, w) =
        (True, (tr @ [ComputedGet c], (snd ?r)\<lparr>trackingDerivation := prev\<rparr>))"
      by (simp add: Let_def)
    then show ?thesis by (intro exI [of _ 1]) simp
  next
    case False
    then have e: "confirm_spec get d prev (c # cs) (tr, w) =
        confirm_spec get d prev cs (tr @ [ComputedGet c], snd ?r)"
      by (simp add: Let_def)
    from Cons.IH [of "tr @ [ComputedGet c]" "snd ?r"] obtain k where
      k: "k \<le> length cs"
      "fst (snd (confirm_spec get d prev cs (tr @ [ComputedGet c], snd ?r))) =
         (tr @ [ComputedGet c]) @ map ComputedGet (take k cs)"
      "fst (confirm_spec get d prev cs (tr @ [ComputedGet c], snd ?r)) \<longrightarrow> 0 < k"
      "\<not> fst (confirm_spec get d prev cs (tr @ [ComputedGet c], snd ?r)) \<longrightarrow> k = length cs"
      by blast
    show ?thesis
      unfolding e using k by (intro exI [of _ "Suc k"]) simp
  qed
qed

lemma changeDependenciesStateTo0_state:
  "dependenciesState (drvHeap (changeDependenciesStateTo0 d w) d) = UP_TO_DATE"
  by (simp add: changeDependenciesStateTo0_def changeDependenciesStateTo0_loop_frame)

lemma confirm_spec_false:
  "\<not> fst (confirm_spec get d prev cs (tr, w)) \<Longrightarrow>
   dependenciesState (drvHeap (snd (snd (confirm_spec get d prev cs (tr, w)))) d) = UP_TO_DATE"
proof (induction cs arbitrary: tr w)
  case Nil
  then show ?case by (simp add: changeDependenciesStateTo0_state)
next
  case (Cons c cs)
  then show ?case by (simp add: Let_def split: if_splits)
qed


text \<open>
  C2. \<open>shouldCompute(d)\<close> is false for \<open>UP_TO_DATE\<close> and true for \<open>NOT_TRACKING\<close> and
  \<open>STALE\<close>, with nothing changed. For \<open>POSSIBLY_STALE\<close> it is the specification's walk
  (\<open>confirm_spec\<close>) over the computed values in \<open>d.observing\<close>, in stored order, started
  with \<open>trackingDerivation\<close> null: \<open>get()\<close> is called on an initial stretch of them and
  on nothing else, \<open>trackingDerivation\<close> is restored on every exit, and when the result
  is false \<open>get()\<close> was called on all of them and \<open>d.dependenciesState\<close> is \<open>UP_TO_DATE\<close>.
\<close>

theorem shouldCompute_cases:
  "(case dependenciesState (drvHeap w d) of
      UP_TO_DATE \<Rightarrow> shouldCompute isCV get d (tr, w) = (False, (tr, w))
    | NOT_TRACKING \<Rightarrow> shouldCompute isCV get d (tr, w) = (True, (tr, w))
    | STALE \<Rightarrow> shouldCompute isCV get d (tr, w) = (True, (tr, w))
    | POSSIBLY_STALE \<Rightarrow>
        shouldCompute isCV get d (tr, w) =
          confirm_spec get d (trackingDerivation w) (filter isCV (observing (drvHeap w d)))
            (tr, w\<lparr>trackingDerivation := None\<rparr>) \<and>
        trackingDerivation (snd (snd (shouldCompute isCV get d (tr, w)))) = trackingDerivation w \<and>
        (\<exists>k \<le> length (filter isCV (observing (drvHeap w d))).
           fst (snd (shouldCompute isCV get d (tr, w))) =
             tr @ map ComputedGet (take k (filter isCV (observing (drvHeap w d)))) \<and>
           (fst (shouldCompute isCV get d (tr, w)) \<longrightarrow> 0 < k) \<and>
           (\<not> fst (shouldCompute isCV get d (tr, w)) \<longrightarrow>
              k = length (filter isCV (observing (drvHeap w d))) \<and>
              dependenciesState (drvHeap (snd (snd (shouldCompute isCV get d (tr, w)))) d) = UP_TO_DATE)))"
proof (cases "dependenciesState (drvHeap w d)")
  case POSSIBLY_STALE
  let ?cs = "filter isCV (observing (drvHeap w d))"
  let ?w = "w\<lparr>trackingDerivation := None\<rparr>"
  have e: "shouldCompute isCV get d (tr, w) = confirm_spec get d (trackingDerivation w) ?cs (tr, ?w)"
    using POSSIBLY_STALE
    by (simp add: shouldCompute_def untrackedStart_def shouldCompute_loop_refines)
  from confirm_spec_log [of ?cs get d "trackingDerivation w" tr ?w] obtain k where
    k: "k \<le> length ?cs"
    "fst (snd (confirm_spec get d (trackingDerivation w) ?cs (tr, ?w))) = tr @ map ComputedGet (take k ?cs)"
    "fst (confirm_spec get d (trackingDerivation w) ?cs (tr, ?w)) \<longrightarrow> 0 < k"
    "\<not> fst (confirm_spec get d (trackingDerivation w) ?cs (tr, ?w)) \<longrightarrow> k = length ?cs"
    by blast
  have "\<exists>k \<le> length ?cs.
           fst (snd (shouldCompute isCV get d (tr, w))) = tr @ map ComputedGet (take k ?cs) \<and>
           (fst (shouldCompute isCV get d (tr, w)) \<longrightarrow> 0 < k) \<and>
           (\<not> fst (shouldCompute isCV get d (tr, w)) \<longrightarrow>
              k = length ?cs \<and>
              dependenciesState (drvHeap (snd (snd (shouldCompute isCV get d (tr, w)))) d) = UP_TO_DATE)"
    unfolding e using k confirm_spec_false [of get d "trackingDerivation w" ?cs tr ?w]
    by (intro exI [of _ k]) simp
  moreover have "trackingDerivation (snd (snd (shouldCompute isCV get d (tr, w)))) = trackingDerivation w"
    unfolding e by (rule confirm_spec_tracking)
  ultimately show ?thesis
    using POSSIBLY_STALE e by simp
qed (simp_all add: shouldCompute_def)

theorem shouldCompute_cases_witness:
  "dependenciesState (drvHeap staleCheckWorld 20) = POSSIBLY_STALE \<and>
   shouldCompute isComputed2x confirmGet 20 ([], staleCheckWorld) =
     confirm_spec confirmGet 20 (Some 12) [22, 23, 24] ([], staleCheckWorld\<lparr>trackingDerivation := None\<rparr>) \<and>
   fst (shouldCompute isComputed2x confirmGet 20 ([], staleCheckWorld)) \<and>
   fst (snd (shouldCompute isComputed2x confirmGet 20 ([], staleCheckWorld))) = [ComputedGet 22, ComputedGet 23] \<and>
   trackingDerivation (snd (snd (shouldCompute isComputed2x confirmGet 20 ([], staleCheckWorld)))) = Some 12"
proof -
  have p: "dependenciesState (drvHeap staleCheckWorld 20) = POSSIBLY_STALE"
    and o: "filter isComputed2x (observing (drvHeap staleCheckWorld 20)) = [22, 23, 24]"
    and t: "trackingDerivation staleCheckWorld = Some 12"
    by (simp_all add: staleCheckWorld_def fixture_defs isComputed2x_def)
  note m = shouldCompute_cases [where w = staleCheckWorld and d = 20 and isCV = isComputed2x
      and get = confirmGet and tr = "[]", unfolded p IDerivationState.case o t]
  note e = m [THEN conjunct1]
  note tk = m [THEN conjunct2, THEN conjunct1]
  have c: "fst (confirm_spec confirmGet 20 (Some 12) [22, 23, 24] ([], staleCheckWorld\<lparr>trackingDerivation := None\<rparr>)) \<and>
     fst (snd (confirm_spec confirmGet 20 (Some 12) [22, 23, 24] ([], staleCheckWorld\<lparr>trackingDerivation := None\<rparr>)))
       = [ComputedGet 22, ComputedGet 23]"
    by (simp add: confirmGet_def Let_def staleCheckWorld_def fixture_defs propagateChangeConfirmed_def)
  show ?thesis
  proof (intro conjI)
    show "dependenciesState (drvHeap staleCheckWorld 20) = POSSIBLY_STALE" by (rule p)
    show "shouldCompute isComputed2x confirmGet 20 ([], staleCheckWorld) =
      confirm_spec confirmGet 20 (Some 12) [22, 23, 24] ([], staleCheckWorld\<lparr>trackingDerivation := None\<rparr>)"
      by (rule e)
    show "fst (shouldCompute isComputed2x confirmGet 20 ([], staleCheckWorld))"
      unfolding e by (rule c [THEN conjunct1])
    show "fst (snd (shouldCompute isComputed2x confirmGet 20 ([], staleCheckWorld))) =
      [ComputedGet 22, ComputedGet 23]"
      unfolding e by (rule c [THEN conjunct2])
    show "trackingDerivation (snd (snd (shouldCompute isComputed2x confirmGet 20 ([], staleCheckWorld)))) = Some 12"
      by (rule tk)
  qed
qed

section \<open>The batch controller\<close>

lemma endBatch_loop_quiet:
  assumes q: "\<And>ob w. pendingUnobservations (h ob w) = pendingUnobservations w"
  shows "endBatch_loop h i (tr, w) = Some (drain_spec h (drop i (pendingUnobservations w)) (tr, w))"
proof (induction "length (pendingUnobservations w) - i" arbitrary: i tr w)
  case 0
  then show ?case by (subst endBatch_loop.simps) simp
next
  case (Suc n)
  then have lt: "i < length (pendingUnobservations w)" by simp
  let ?ob = "pendingUnobservations w ! i"
  let ?w1 = "updObs ?ob (\<lambda>x. x\<lparr>isPendingUnobservation := False\<rparr>) w"
  have d: "drop i (pendingUnobservations w) = ?ob # drop (Suc i) (pendingUnobservations w)"
    using lt by (simp add: Cons_nth_drop_Suc)
  show ?case
  proof (cases "length (observers (obsHeap ?w1 ?ob)) = 0")
    case True
    have "n = length (pendingUnobservations (h ?ob ?w1)) - Suc i"
      using Suc.hyps(2) by (simp add: q)
    from Suc.hyps(1) [OF this, of "tr @ [OnBecomeUnobserved ?ob]"] True lt show ?thesis
      by (subst endBatch_loop.simps) (simp add: d q Let_def)
  next
    case False
    have "n = length (pendingUnobservations ?w1) - Suc i"
      using Suc.hyps(2) by simp
    from Suc.hyps(1) [OF this, of tr] False lt show ?thesis
      by (subst endBatch_loop.simps) (simp add: d Let_def)
  qed
qed

lemma endBatch_loop_log:
  assumes "endBatch_loop h i r = Some r'"
  shows "\<exists>obs. fst r' = fst r @ map OnBecomeUnobserved obs"
proof (rule endBatch_loop.raw_induct
    [where P = "\<lambda>h i r r'. \<exists>obs. fst r' = fst r @ map OnBecomeUnobserved obs", OF _ assms])
  fix f :: "nodeHook \<Rightarrow> nat \<Rightarrow> run \<Rightarrow> run option" and h :: nodeHook and i r r'
  assume IH: "\<And>h i r r'. f h i r = Some r' \<Longrightarrow> \<exists>obs. fst r' = fst r @ map OnBecomeUnobserved obs"
  assume body: "(if i < length (pendingUnobservations (snd r)) then
        (let ob = pendingUnobservations (snd r) ! i;
             w1 = updObs ob (\<lambda>x. x\<lparr>isPendingUnobservation := False\<rparr>) (snd r)
         in f h (i + 1)
              (if length (observers (obsHeap w1 ob)) = 0
               then (fst r @ [OnBecomeUnobserved ob], h ob w1)
               else (fst r, w1)))
      else Some r) = Some r'"
  show "\<exists>obs. fst r' = fst r @ map OnBecomeUnobserved obs"
  proof (cases "i < length (pendingUnobservations (snd r))")
    case False
    with body have "r' = r" by simp
    then have "fst r' = fst r @ map OnBecomeUnobserved []" by simp
    then show ?thesis by blast
  next
    case True
    let ?ob = "pendingUnobservations (snd r) ! i"
    let ?w1 = "updObs ?ob (\<lambda>x. x\<lparr>isPendingUnobservation := False\<rparr>) (snd r)"
    show ?thesis
    proof (cases "length (observers (obsHeap ?w1 ?ob)) = 0")
      case e: True
      from body True e have "f h (i + 1) (fst r @ [OnBecomeUnobserved ?ob], h ?ob ?w1) = Some r'"
        by (simp add: Let_def)
      from IH [OF this] obtain obs
        where "fst r' = (fst r @ [OnBecomeUnobserved ?ob]) @ map OnBecomeUnobserved obs"
        by auto
      then have "fst r' = fst r @ map OnBecomeUnobserved (?ob # obs)" by simp
      then show ?thesis by blast
    next
      case e: False
      from body True e have "f h (i + 1) (fst r, ?w1) = Some r'"
        by (simp add: Let_def)
      from IH [OF this] show ?thesis by simp
    qed
  qed
qed

text \<open>
  C7. \<open>startBatch\<close> increments \<open>inBatch\<close>. An \<open>endBatch\<close> that does not bring
  \<open>inBatch\<close> to 0 only decrements it: no hook is called and the queue is left as it is.
  An \<open>endBatch\<close> that brings it to 0 calls \<open>runReactions\<close> first and then only
  \<open>onBecomeUnobserved\<close> hooks, and leaves \<open>pendingUnobservations\<close> empty whenever it
  returns; it returns, with the queue drained as the specification words it (\<open>drain_spec\<close>), when
  the hooks enqueue nothing.
\<close>

theorem batch_nesting:
  "inBatch (startBatch w) = inBatch w + 1 \<and>
   (if inBatch w = 1
    then (\<forall>r'. endBatch rr h (tr, w) = Some r' \<longrightarrow>
            pendingUnobservations (snd r') = [] \<and>
            (\<exists>obs. fst r' = tr @ RunReactions # map OnBecomeUnobserved obs)) \<and>
         ((\<forall>ob w'. pendingUnobservations (h ob w') = pendingUnobservations w') \<longrightarrow>
            endBatch rr h (tr, w) =
              Some (let r2 = drain_spec h (pendingUnobservations (rr (w\<lparr>inBatch := 0\<rparr>)))
                               (tr @ [RunReactions], rr (w\<lparr>inBatch := 0\<rparr>))
                    in (fst r2, (snd r2)\<lparr>pendingUnobservations := []\<rparr>)))
    else endBatch rr h (tr, w) = Some (tr, w\<lparr>inBatch := inBatch w - 1\<rparr>))"
proof (cases "inBatch w = 1")
  case False
  then show ?thesis by (simp add: startBatch_def endBatch_def Let_def)
next
  case True
  let ?w0 = "w\<lparr>inBatch := 0\<rparr>"
  have a: "pendingUnobservations (snd r') = [] \<and>
           (\<exists>obs. fst r' = tr @ RunReactions # map OnBecomeUnobserved obs)"
    if "endBatch rr h (tr, w) = Some r'" for r'
  proof -
    from that True obtain r2 where
      l: "endBatch_loop h 0 (tr @ [RunReactions], rr ?w0) = Some r2"
      and r': "r' = (fst r2, (snd r2)\<lparr>pendingUnobservations := []\<rparr>)"
      by (auto simp: endBatch_def Let_def split: option.splits)
    from endBatch_loop_log [OF l] r' show ?thesis by auto
  qed
  have b: "endBatch rr h (tr, w) =
              Some (let r2 = drain_spec h (pendingUnobservations (rr ?w0)) (tr @ [RunReactions], rr ?w0)
                    in (fst r2, (snd r2)\<lparr>pendingUnobservations := []\<rparr>))"
    if "\<forall>ob w'. pendingUnobservations (h ob w') = pendingUnobservations w'"
    using True endBatch_loop_quiet [of h 0 "tr @ [RunReactions]" "rr ?w0"] that
    by (simp add: endBatch_def Let_def)
  from True a b show ?thesis by (simp add: startBatch_def)
qed


theorem batch_nesting_witness:
  "endBatch (\<lambda>w. w) (\<lambda>_ w. w) ([], startBatch (startBatch batchWorld)) = Some ([], startBatch batchWorld) \<and>
   (\<exists>w'. endBatch (\<lambda>w. w) (\<lambda>_ w. w) ([], startBatch batchWorld) =
            Some ([RunReactions, OnBecomeUnobserved 7], w') \<and>
          pendingUnobservations w' = [] \<and> inBatch w' = 0 \<and>
          \<not> isPendingUnobservation (obsHeap w' 7) \<and> \<not> isPendingUnobservation (obsHeap w' 8))"
proof -
  have i2: "inBatch (startBatch (startBatch batchWorld)) \<noteq> 1"
    and i1: "inBatch (startBatch batchWorld) = 1"
    by (simp_all add: startBatch_def batchWorld_def fixture_defs)
  note inner = batch_nesting [of "startBatch (startBatch batchWorld)" "\<lambda>w. w" "\<lambda>_ w. w" "[]",
      THEN conjunct2, unfolded if_not_P [OF i2]]
  have "(startBatch (startBatch batchWorld))\<lparr>inBatch := inBatch (startBatch (startBatch batchWorld)) - 1\<rparr>
          = startBatch batchWorld"
    by (simp add: startBatch_def)
  with inner have n: "endBatch (\<lambda>w. w) (\<lambda>_ w. w) ([], startBatch (startBatch batchWorld))
      = Some ([], startBatch batchWorld)"
    by simp
  have q: "\<forall>ob w'. pendingUnobservations ((\<lambda>_ w. w) ob w') = pendingUnobservations w'"
    by simp
  note outer = batch_nesting [of "startBatch batchWorld" "\<lambda>w. w" "\<lambda>_ w. w" "[]",
      THEN conjunct2, unfolded if_P [OF i1], THEN conjunct2, rule_format, OF q [rule_format]]
  have p: "pendingUnobservations ((startBatch batchWorld)\<lparr>inBatch := 0\<rparr>) = [7, 8]"
    by (simp add: startBatch_def batchWorld_def)
  have d: "drain_spec (\<lambda>_ w. w) [7, 8] ([] @ [RunReactions], (startBatch batchWorld)\<lparr>inBatch := 0\<rparr>) =
      ([RunReactions, OnBecomeUnobserved 7],
       updObs 8 (\<lambda>x. x\<lparr>isPendingUnobservation := False\<rparr>)
        (updObs 7 (\<lambda>x. x\<lparr>isPendingUnobservation := False\<rparr>) ((startBatch batchWorld)\<lparr>inBatch := 0\<rparr>)))"
    by (simp add: startBatch_def batchWorld_def fixture_defs Let_def)
  have o: "\<exists>w'. endBatch (\<lambda>w. w) (\<lambda>_ w. w) ([], startBatch batchWorld) =
            Some ([RunReactions, OnBecomeUnobserved 7], w') \<and>
          pendingUnobservations w' = [] \<and> inBatch w' = 0 \<and>
          \<not> isPendingUnobservation (obsHeap w' 7) \<and> \<not> isPendingUnobservation (obsHeap w' 8)"
    unfolding outer p d by (simp add: Let_def)
  from n o show ?thesis by (rule conjI)
qed

section \<open>Unobservation within one batch\<close>

lemma requeueBatch_queue:
  "pendingUnobservations requeueBatch = [0, 1] \<and> inBatch requeueBatch = 1 \<and>
   trackingDerivation requeueBatch = None \<and>
   observers (obsHeap requeueBatch 0) = [] \<and> observers (obsHeap requeueBatch 1) = [] \<and>
   isPendingUnobservation (obsHeap requeueBatch 0) \<and> isPendingUnobservation (obsHeap requeueBatch 1)"
  by (simp add: requeueBatch_def requeueWorld_def reportObserved_def queueForUnobservation_def
      startBatch_def fixture_defs)

lemmas requeue_defs = requeueBatch_def requeueWorld_def requeueHook_def reportObserved_def
  queueForUnobservation_def startBatch_def fixture_defs Let_def

lemma requeue_drain:
  "\<exists>w'. endBatch_loop requeueHook 0 ([RunReactions], requeueBatch\<lparr>inBatch := 0\<rparr>) =
           Some ([RunReactions, OnBecomeUnobserved 0, OnBecomeUnobserved 1, OnBecomeUnobserved 0], w') \<and>
         pendingUnobservations w' = [0, 1, 0]"
  apply (subst endBatch_loop.simps)
  apply (simp add: requeue_defs)
  apply (subst endBatch_loop.simps)
  apply (simp add: requeue_defs)
  apply (subst endBatch_loop.simps)
  apply (simp add: requeue_defs)
  apply (subst endBatch_loop.simps)
  apply (simp add: requeue_defs)
  done


text \<open>
  C8. In one outermost batch atoms 0 and 1 are read outside any derivation and queued.
  In the drain of the closing \<open>endBatch\<close>, atom 0 is visited (its flag cleared, its hook
  fired), then the hook of atom 1 reads atom 0, which is queued again: atom 0 is pushed
  onto \<open>pendingUnobservations\<close> twice and its \<open>onBecomeUnobserved\<close> fires twice.
\<close>

theorem endBatch_requeue_fires_twice:
  "(\<exists>w'. endBatch_loop requeueHook 0 ([RunReactions], requeueBatch\<lparr>inBatch := 0\<rparr>) =
           Some ([RunReactions, OnBecomeUnobserved 0, OnBecomeUnobserved 1, OnBecomeUnobserved 0], w') \<and>
         pendingUnobservations w' = [0, 1, 0]) \<and>
   (\<exists>w'. endBatch (\<lambda>w. w) requeueHook ([], requeueBatch) =
           Some ([RunReactions, OnBecomeUnobserved 0, OnBecomeUnobserved 1, OnBecomeUnobserved 0], w'))"
proof -
  from requeue_drain obtain w' where
    l: "endBatch_loop requeueHook 0 ([RunReactions], requeueBatch\<lparr>inBatch := 0\<rparr>) =
           Some ([RunReactions, OnBecomeUnobserved 0, OnBecomeUnobserved 1, OnBecomeUnobserved 0], w')"
    by blast
  have i: "requeueBatch\<lparr>inBatch := inBatch requeueBatch - 1\<rparr> = requeueBatch\<lparr>inBatch := 0\<rparr>"
    using requeueBatch_queue by simp
  have "endBatch (\<lambda>w. w) requeueHook ([], requeueBatch) =
           Some ([RunReactions, OnBecomeUnobserved 0, OnBecomeUnobserved 1, OnBecomeUnobserved 0],
                 w'\<lparr>pendingUnobservations := []\<rparr>)"
    by (simp add: endBatch_def i l)
  with requeue_drain show ?thesis by blast
qed

section \<open>Observable values\<close>


lemma interceptChange_loop_log:
  "\<exists>k \<le> length hs. fst (snd (interceptChange_loop hs i c (tr, w))) = tr @ map InterceptorCall [i..<i + k]"
proof (induction hs arbitrary: i c tr w)
  case Nil
  then show ?case by simp
next
  case (Cons h hs)
  show ?case
  proof (cases "\<exists>c' w1. h c w = (Inr (Some c'), w1) \<and> truthy (changeType c')")
    case True
    then obtain c' w1 where h: "h c w = (Inr (Some c'), w1)" and t: "truthy (changeType c')"
      by blast
    have e: "interceptChange_loop (h # hs) i c (tr, w) =
             interceptChange_loop hs (i + 1) c' (tr @ [InterceptorCall i], w1)"
      using h t by (simp add: invariant_def)
    from Cons.IH [of "i + 1" c' "tr @ [InterceptorCall i]" w1] obtain k where
      k: "k \<le> length hs"
      "fst (snd (interceptChange_loop hs (i + 1) c' (tr @ [InterceptorCall i], w1))) =
         (tr @ [InterceptorCall i]) @ map InterceptorCall [i + 1..<i + 1 + k]"
      by blast
    have "[i..<i + Suc k] = i # [i + 1..<i + 1 + k]"
      by (simp add: upt_rec)
    with k show ?thesis
      unfolding e by (intro exI [of _ "Suc k"]) simp
  next
    case False
    then have "fst (snd (interceptChange_loop (h # hs) i c (tr, w))) = tr @ [InterceptorCall i]"
      by (auto simp: invariant_def split: prod.splits sum.splits option.splits)
    then show ?thesis by (intro exI [of _ 1]) simp
  qed
qed


lemma interceptChange_log:
  "\<exists>k \<le> (case interceptors ov of None \<Rightarrow> 0 | Some hs \<Rightarrow> length hs).
     fst (snd (interceptChange ov c (tr, w))) = tr @ map InterceptorCall [0..<k]"
proof (cases "interceptors ov")
  case None
  then show ?thesis
    by (simp add: interceptChange_def untrackedStart_def Let_def)
next
  case (Some hs)
  from interceptChange_loop_log [of hs 0 c tr "w\<lparr>trackingDerivation := None\<rparr>"] Some
  show ?thesis
    by (simp add: interceptChange_def untrackedStart_def Let_def)
qed

lemma prepareNewValue_log:
  "\<exists>k. fst (snd (prepareNewValue ov nv (tr, w))) = tr @ map InterceptorCall [0..<k]"
proof -
  let ?c = "\<lparr>changeObject = atomId ov, changeType = JStr ''update'', newValue = nv\<rparr>"
  from interceptChange_log [of ov ?c tr w] obtain k where
    k: "fst (snd (interceptChange ov ?c (tr, w))) = tr @ map InterceptorCall [0..<k]"
    by blast
  have z: "tr = tr @ map InterceptorCall [0..<0]" by simp
  show ?thesis
  proof (cases "checkIfStateModificationsAreAllowed w = None \<and> hasInterceptors ov")
    case True
    then have "fst (snd (prepareNewValue ov nv (tr, w))) = fst (snd (interceptChange ov ?c (tr, w)))"
      by (auto simp: prepareNewValue_def applyEnhancer_def split: prod.splits sum.splits option.splits)
    with k show ?thesis by auto
  next
    case False
    then have "fst (snd (prepareNewValue ov nv (tr, w))) = tr"
      by (auto simp: prepareNewValue_def applyEnhancer_def split: prod.splits sum.splits option.splits)
    with z show ?thesis by metis
  qed
qed

text \<open>
  C6. When \<open>prepareNewValue\<close> yields \<open>UNCHANGED\<close>, \<open>set\<close> returns normally with the
  observable value as it was and the world as \<open>prepareNewValue\<close> left it, and the only
  calls made are those of interceptors: no \<open>reportChanged\<close>, no listener, no spy report.
  \<open>prepareNewValue\<close> yields \<open>UNCHANGED\<close> in particular when the enhancer, applied to the
  new value (without interceptors) or to the value the interceptor chain returned, gives
  the stored value.
\<close>

theorem setValue_unchanged:
  "(fst (prepareNewValue ov nv (tr, w)) = Inr UNCHANGED \<longrightarrow>
      setValue env ov nv (tr, w) = (None, ov, snd (prepareNewValue ov nv (tr, w))) \<and>
      (\<exists>k. fst (snd (snd (setValue env ov nv (tr, w)))) = tr @ map InterceptorCall [0..<k])) \<and>
   (allowStateChanges w \<and> \<not> hasInterceptors ov \<and>
    enhancer ov nv (storedValue ov) (name ov) = Inr (storedValue ov) \<longrightarrow>
      prepareNewValue ov nv (tr, w) = (Inr UNCHANGED, (tr, w))) \<and>
   (allowStateChanges w \<and> hasInterceptors ov \<and>
    fst (interceptChange ov \<lparr>changeObject = atomId ov, changeType = JStr ''update'', newValue = nv\<rparr> (tr, w))
      = Inr (Some c) \<and>
    enhancer ov (newValue c) (storedValue ov) (name ov) = Inr (storedValue ov) \<longrightarrow>
      fst (prepareNewValue ov nv (tr, w)) = Inr UNCHANGED)"
proof (intro conjI impI)
  assume u: "fst (prepareNewValue ov nv (tr, w)) = Inr UNCHANGED"
  then show s: "setValue env ov nv (tr, w) = (None, ov, snd (prepareNewValue ov nv (tr, w)))"
    by (cases "prepareNewValue ov nv (tr, w)") (simp add: setValue_def)
  from prepareNewValue_log [of ov nv tr w]
  show "\<exists>k. fst (snd (snd (setValue env ov nv (tr, w)))) = tr @ map InterceptorCall [0..<k]"
    unfolding s by simp
next
  assume "allowStateChanges w \<and> \<not> hasInterceptors ov \<and>
    enhancer ov nv (storedValue ov) (name ov) = Inr (storedValue ov)"
  then show "prepareNewValue ov nv (tr, w) = (Inr UNCHANGED, (tr, w))"
    by (simp add: prepareNewValue_def checkIfStateModificationsAreAllowed_def applyEnhancer_def)
next
  assume "allowStateChanges w \<and> hasInterceptors ov \<and>
    fst (interceptChange ov \<lparr>changeObject = atomId ov, changeType = JStr ''update'', newValue = nv\<rparr> (tr, w))
      = Inr (Some c) \<and>
    enhancer ov (newValue c) (storedValue ov) (name ov) = Inr (storedValue ov)"
  then show "fst (prepareNewValue ov nv (tr, w)) = Inr UNCHANGED"
    by (cases "interceptChange ov \<lparr>changeObject = atomId ov, changeType = JStr ''update'', newValue = nv\<rparr> (tr, w)")
       (simp add: prepareNewValue_def checkIfStateModificationsAreAllowed_def applyEnhancer_def)
qed

lemmas value_defs = plainValue_def referenceEnhancer_def
  doubling_def rejecting_def throwing_def untyped_def silentListener_def throwingListener_def
  updateTo_def quietEnv_def

lemma trackWorld_allows: "allowStateChanges trackWorld"
  by (simp add: trackWorld_def fixture_defs)

theorem setValue_unchanged_witness:
  "fst (prepareNewValue doubledValue (JNum 2) ([], trackWorld)) = Inr UNCHANGED \<and>
   fst (setValue quietEnv doubledValue (JNum 2) ([], trackWorld)) = None \<and>
   fst (snd (setValue quietEnv doubledValue (JNum 2) ([], trackWorld))) = doubledValue \<and>
   fst (snd (snd (setValue quietEnv doubledValue (JNum 2) ([], trackWorld)))) = [InterceptorCall 0]"
proof -
  have i: "interceptChange doubledValue
      \<lparr>changeObject = atomId doubledValue, changeType = JStr ''update'', newValue = JNum 2\<rparr> ([], trackWorld)
      = (Inr (Some \<lparr>changeObject = 30, changeType = JStr ''update'', newValue = JNum 4\<rparr>),
         ([InterceptorCall 0], trackWorld\<lparr>trackingDerivation := trackingDerivation trackWorld\<rparr>))"
    by (simp add: interceptChange_def untrackedStart_def untrackedEnd_def doubledValue_def value_defs invariant_def)
  have h: "hasInterceptors doubledValue"
    by (simp add: hasInterceptors_def doubledValue_def value_defs)
  have e: "enhancer doubledValue (newValue \<lparr>changeObject = 30, changeType = JStr ''update'', newValue = JNum 4\<rparr>)
      (storedValue doubledValue) (name doubledValue) = Inr (storedValue doubledValue)"
    by (simp add: doubledValue_def value_defs)
  note m = setValue_unchanged [of doubledValue "JNum 2" "[]" trackWorld quietEnv
      "\<lparr>changeObject = 30, changeType = JStr ''update'', newValue = JNum 4\<rparr>"]
  have u: "fst (prepareNewValue doubledValue (JNum 2) ([], trackWorld)) = Inr UNCHANGED"
    using m [THEN conjunct2, THEN conjunct2] trackWorld_allows h i e by simp
  have s: "setValue quietEnv doubledValue (JNum 2) ([], trackWorld) =
      (None, doubledValue, snd (prepareNewValue doubledValue (JNum 2) ([], trackWorld)))"
    using m [THEN conjunct1] u by simp
  have t: "fst (snd (prepareNewValue doubledValue (JNum 2) ([], trackWorld))) = [InterceptorCall 0]"
    using h i e trackWorld_allows
    by (simp add: prepareNewValue_def checkIfStateModificationsAreAllowed_def applyEnhancer_def)
  from u s t show ?thesis by simp
qed




text \<open>
  C10. While derivation 12 is being tracked: \<open>notifyListeners\<close> on a listenable whose
  \<open>changeListeners\<close> is null returns with \<open>trackingDerivation\<close> null, not restored; so does
  a \<open>set\<close> whose second listener throws (after the assignment, \<open>reportChanged\<close> and the
  first two listeners, in registration order). With listeners that return,
  \<open>trackingDerivation\<close> is restored.
\<close>

theorem notifyListeners_leaves_untracked:
  "trackingDerivation trackWorld = Some 12 \<and>
   fst (notifyListeners plainValue didUpdate ([], trackWorld)) = None \<and>
   trackingDerivation (snd (snd (notifyListeners plainValue didUpdate ([], trackWorld)))) = None \<and>
   fst (setValue quietEnv
          (plainValue\<lparr>changeListeners := Some [silentListener, throwingListener, silentListener]\<rparr>)
          (JNum 2) ([], trackWorld)) = Some (Thrown ''listener'') \<and>
   fst (snd (snd (setValue quietEnv
          (plainValue\<lparr>changeListeners := Some [silentListener, throwingListener, silentListener]\<rparr>)
          (JNum 2) ([], trackWorld)))) =
     [ReportChanged 30, ListenerCall 0 didUpdate, ListenerCall 1 didUpdate] \<and>
   trackingDerivation (snd (snd (snd (setValue quietEnv
          (plainValue\<lparr>changeListeners := Some [silentListener, throwingListener, silentListener]\<rparr>)
          (JNum 2) ([], trackWorld))))) = None \<and>
   trackingDerivation (snd (snd (notifyListeners
          (plainValue\<lparr>changeListeners := Some [silentListener, silentListener]\<rparr>)
          didUpdate ([], trackWorld)))) = Some 12"
proof (intro conjI)
  show "trackingDerivation trackWorld = Some 12"
    by (rule trackWorld_facts(5))
  show "fst (notifyListeners plainValue didUpdate ([], trackWorld)) = None"
    by (simp add: notifyListeners_def untrackedStart_def value_defs)
  show "trackingDerivation (snd (snd (notifyListeners plainValue didUpdate ([], trackWorld)))) = None"
    by (simp add: notifyListeners_def untrackedStart_def value_defs)
  let ?ov = "plainValue\<lparr>changeListeners := Some [silentListener, throwingListener, silentListener]\<rparr>"
  have p: "prepareNewValue ?ov (JNum 2) ([], trackWorld) = (Inr (NewValue (JNum 2)), ([], trackWorld))"
    using trackWorld_allows
    by (simp add: prepareNewValue_def checkIfStateModificationsAreAllowed_def hasInterceptors_def
        applyEnhancer_def value_defs)
  have n: "notifyListeners (?ov\<lparr>storedValue := JNum 2\<rparr>) didUpdate ([ReportChanged 30], w) =
      (Some (Thrown ''listener''),
       ([ReportChanged 30, ListenerCall 0 didUpdate, ListenerCall 1 didUpdate], w\<lparr>trackingDerivation := None\<rparr>))"
    for w
    by (simp add: notifyListeners_def untrackedStart_def value_defs)
  have s: "setValue quietEnv ?ov (JNum 2) ([], trackWorld) =
      (Some (Thrown ''listener''), ?ov\<lparr>storedValue := JNum 2\<rparr>,
       ([ReportChanged 30, ListenerCall 0 didUpdate, ListenerCall 1 didUpdate],
        (reportChanged quietEnv 30 trackWorld)\<lparr>trackingDerivation := None\<rparr>))"
    unfolding setValue_def p
    by (simp add: setNewValue_def hasListeners_def Let_def n plainValue_def didUpdate_def quietEnv_def
          del: propagateChanged_loop.simps)
       (simp add: n [unfolded didUpdate_def plainValue_def, simplified] quietEnv_def)
  show "fst (setValue quietEnv ?ov (JNum 2) ([], trackWorld)) = Some (Thrown ''listener'')"
    unfolding s by simp
  show "fst (snd (snd (setValue quietEnv ?ov (JNum 2) ([], trackWorld)))) =
     [ReportChanged 30, ListenerCall 0 didUpdate, ListenerCall 1 didUpdate]"
    unfolding s by simp
  show "trackingDerivation (snd (snd (snd (setValue quietEnv ?ov (JNum 2) ([], trackWorld))))) = None"
    unfolding s by simp
  show "trackingDerivation (snd (snd (notifyListeners
          (plainValue\<lparr>changeListeners := Some [silentListener, silentListener]\<rparr>)
          didUpdate ([], trackWorld)))) = Some 12"
    using trackWorld_facts(5)
    by (simp add: notifyListeners_def untrackedStart_def untrackedEnd_def value_defs)
qed

end
